theory Spec2Isabelle
  imports Complex_Main "HOL-Library.Word" "HOL-Library.Log_Nat" "HOL-Library.Signed_Division"
begin

unbundle bit_operations_syntax

text \<open>
  A model of \<open>src/main.c\<close> of bsdmon, the system monitor for Linux and FreeBSD: the CPU,
  memory, disk and network collectors, the CPU usage estimate and the report of \<open>main\<close>.
  What a collector reads from the kernel is an argument of its model; what it prints is part
  of the result. The integer types are those of the 64-bit platforms: \<open>int\<close> and
  \<open>unsigned int\<close> have 32 bits, \<open>long\<close>, \<open>unsigned long\<close>, \<open>unsigned long long\<close> and \<open>size_t\<close>
  have 64 bits, and unsigned arithmetic wraps around.
\<close>

section \<open>Double-precision values\<close>

text \<open>
  The C type \<open>double\<close> is modelled as IEEE-754 binary64 with round-to-nearest, ties-to-even:
  a finite value is the rational number it denotes, next to the two infinities and NaN.
  Every double of \<open>main.c\<close> is converted from an unsigned integer or is a positive literal,
  and the only operations are \<open>/\<close> and \<open>*\<close>, so no negative zero can arise and the model
  does not represent one.
\<close>

datatype double = Fin rat | PInf | NInf | NaN

definition ilog2 :: "rat \<Rightarrow> int" where
  \<comment> \<open>\<open>\<lfloor>log\<^sub>2 x\<rfloor>\<close> for \<open>0 < x\<close>\<close>
  "ilog2 x = (if 1 \<le> x then bitlen \<lfloor>x\<rfloor> - 1 else - bitlen (\<lceil>1 / x\<rceil> - 1))"

definition round_half_even :: "rat \<Rightarrow> int" where
  "round_half_even x =
     (let f = \<lfloor>x\<rfloor>; d = x - of_int f
      in if d < 1 / 2 then f
         else if 1 / 2 < d then f + 1
         else if even f then f else f + 1)"

definition ulp_exp :: "rat \<Rightarrow> int" where
  \<comment> \<open>exponent of the unit in the last place: 53 significant bits, subnormals below \<open>2\<^sup>-\<^sup>1\<^sup>0\<^sup>2\<^sup>2\<close>\<close>
  "ulp_exp x = max (ilog2 x - 52) (- 1074)"

definition round_binary64 :: "rat \<Rightarrow> rat" where
  "round_binary64 x =
     (if x = 0 then 0
      else sgn x * of_int (round_half_even (\<bar>x\<bar> / 2 powi ulp_exp \<bar>x\<bar>)) * 2 powi ulp_exp \<bar>x\<bar>)"

definition to_double :: "rat \<Rightarrow> double" where
  \<comment> \<open>the double nearest to an exact result; overflow gives an infinity\<close>
  "to_double x =
     (let r = round_binary64 x
      in if 2 ^ 1024 \<le> r then PInf else if r \<le> - (2 ^ 1024) then NInf else Fin r)"

definition double_of_u64 :: "64 word \<Rightarrow> double" where
  \<comment> \<open>the conversion \<open>(double) n\<close> of an unsigned 64-bit integer\<close>
  "double_of_u64 w = to_double (of_nat (unat w))"

fun fdiv :: "double \<Rightarrow> double \<Rightarrow> double" where
  "fdiv NaN _ = NaN"
| "fdiv _ NaN = NaN"
| "fdiv (Fin a) (Fin b) =
     (if b = 0 then (if a = 0 then NaN else if 0 < a then PInf else NInf)
      else to_double (a / b))"
| "fdiv (Fin a) _ = Fin 0"
| "fdiv PInf (Fin b) = (if 0 \<le> b then PInf else NInf)"
| "fdiv NInf (Fin b) = (if 0 \<le> b then NInf else PInf)"
| "fdiv _ _ = NaN"

fun fmul :: "double \<Rightarrow> double \<Rightarrow> double" where
  "fmul NaN _ = NaN"
| "fmul _ NaN = NaN"
| "fmul (Fin a) (Fin b) = to_double (a * b)"
| "fmul (Fin a) PInf = (if a = 0 then NaN else if 0 < a then PInf else NInf)"
| "fmul (Fin a) NInf = (if a = 0 then NaN else if 0 < a then NInf else PInf)"
| "fmul PInf (Fin b) = (if b = 0 then NaN else if 0 < b then PInf else NInf)"
| "fmul NInf (Fin b) = (if b = 0 then NaN else if 0 < b then NInf else PInf)"
| "fmul PInf PInf = PInf"
| "fmul NInf NInf = PInf"
| "fmul _ _ = NInf"

section \<open>CPU usage\<close>

text \<open>
  \<open>main.c\<close> is compiled for one of two platforms; the preprocessor branches
  \<open>#ifdef __linux__\<close> and \<open>#ifdef __FreeBSD__\<close> become a parameter of the model.
\<close>

datatype platform = Linux | FreeBSD

text \<open>
  \<open>cpu_times_t\<close>: five \<open>unsigned long long\<close> counters. The field \<open>intr\<close> exists only in
  the FreeBSD build; the Linux branches neither write nor read it (it is held at 0 there).
\<close>

record cpu_times_t =
  user :: "64 word"
  nice :: "64 word"
  system :: "64 word"
  idle :: "64 word"
  intr :: "64 word"

definition active :: "platform \<Rightarrow> cpu_times_t \<Rightarrow> 64 word" where
  "active plat t =
     (case plat of
        FreeBSD \<Rightarrow> user t + nice t + system t + intr t
      | Linux \<Rightarrow> user t + nice t + system t)"

definition calc_cpu_usage :: "platform \<Rightarrow> cpu_times_t \<Rightarrow> cpu_times_t \<Rightarrow> double" where
  "calc_cpu_usage plat prev cur =
     (let prev_active = active plat prev;
          curr_active = active plat cur;
          prev_total = prev_active + idle prev;
          curr_total = curr_active + idle cur;
          total_delta = curr_total - prev_total;
          active_delta = curr_active - prev_active
      in if total_delta = 0 then Fin 0
         else fmul (fdiv (double_of_u64 active_delta) (double_of_u64 total_delta)) (Fin 100))"

definition total :: "platform \<Rightarrow> cpu_times_t \<Rightarrow> 64 word" where
  \<comment> \<open>\<open>prev_total\<close> and \<open>curr_total\<close> of \<open>calc_cpu_usage\<close>, in \<open>unsigned long long\<close> arithmetic\<close>
  "total plat t = active plat t + idle t"

definition total_ticks :: "platform \<Rightarrow> cpu_times_t \<Rightarrow> nat" where
  \<comment> \<open>the exact sum of the counters, without wrap-around\<close>
  "total_ticks plat t =
     unat (user t) + unat (nice t) + unat (system t)
       + (case plat of FreeBSD \<Rightarrow> unat (intr t) | Linux \<Rightarrow> 0) + unat (idle t)"

definition cumulative :: "platform \<Rightarrow> cpu_times_t \<Rightarrow> cpu_times_t \<Rightarrow> bool" where
  \<comment> \<open>no counter of the later sample is below its value in the earlier one\<close>
  "cumulative plat prev cur \<longleftrightarrow>
     user prev \<le> user cur \<and> nice prev \<le> nice cur \<and> system prev \<le> system cur
       \<and> idle prev \<le> idle cur \<and> (case plat of FreeBSD \<Rightarrow> intr prev \<le> intr cur | Linux \<Rightarrow> True)"

definition sample_a :: cpu_times_t where
  "sample_a = \<lparr>user = 1, nice = 2, system = 3, idle = 4, intr = 0\<rparr>"

definition sample_b :: cpu_times_t where
  "sample_b = \<lparr>user = 5, nice = 2, system = 3, idle = 4, intr = 0\<rparr>"

definition sample_c :: cpu_times_t where
  "sample_c = \<lparr>user = 2, nice = 2, system = 3, idle = 3, intr = 0\<rparr>"

definition sample_zero :: cpu_times_t where
  "sample_zero = \<lparr>user = 0, nice = 0, system = 0, idle = 0, intr = 0\<rparr>"

definition sample_huge :: cpu_times_t where
  "sample_huge = \<lparr>user = 18446744073709551615, nice = 0, system = 0, idle = 2, intr = 0\<rparr>"

section \<open>Standard input functions\<close>

text \<open>
  A failure path of a collector is named after the diagnostic it prints before it returns \<open>-1\<close>.
\<close>

datatype error =
    FopenFailed        \<comment> \<open>\<open>perror("fopen ...")\<close>\<close>
  | FgetsFailed        \<comment> \<open>\<open>perror("fgets")\<close>\<close>
  | ParseFailed        \<comment> \<open>\<open>"Failed to parse /proc/stat cpu line"\<close>\<close>
  | SysctlSizeFailed   \<comment> \<open>\<open>perror("sysctl (get size of kern.cp_times)")\<close>\<close>
  | MallocFailed       \<comment> \<open>\<open>perror("malloc")\<close>\<close>
  | SysctlReadFailed   \<comment> \<open>\<open>perror("sysctl (get kern.cp_times)")\<close>\<close>
  | MemTotalMissing    \<comment> \<open>\<open>"Failed to get MemTotal"\<close>\<close>
  | PhysmemFailed      \<comment> \<open>\<open>perror("sysctl hw.physmem")\<close>\<close>
  | PagesizeFailed     \<comment> \<open>\<open>perror("sysconf _SC_PAGESIZE")\<close>\<close>
  | FreeCountFailed    \<comment> \<open>\<open>perror("sysctl vm.stats.vm.v_free_count")\<close>\<close>
  | StatvfsFailed      \<comment> \<open>\<open>perror("statvfs")\<close>\<close>
  | GetifaddrsFailed   \<comment> \<open>\<open>perror("getifaddrs")\<close>\<close>

definition isspace :: "char \<Rightarrow> bool" where
  \<comment> \<open>space, \<open>\t\<close>, \<open>\n\<close>, \<open>\v\<close>, \<open>\f\<close>, \<open>\r\<close>\<close>
  "isspace c \<longleftrightarrow> (of_char c :: nat) = 32 \<or> (9 \<le> (of_char c :: nat) \<and> (of_char c :: nat) \<le> 13)"

definition isdigit :: "char \<Rightarrow> bool" where
  "isdigit c \<longleftrightarrow> 48 \<le> (of_char c :: nat) \<and> (of_char c :: nat) \<le> 57"

text \<open>
  An open file is the text that is still unread. \<open>fgets(buf, n, fp)\<close> stores at most
  \<open>n - 1\<close> characters, stopping after a newline, and returns \<open>NULL\<close> at the end of the file.
\<close>

fun fgets_take :: "nat \<Rightarrow> string \<Rightarrow> string \<times> string" where
  "fgets_take 0 s = ([], s)"
| "fgets_take (Suc n) [] = ([], [])"
| "fgets_take (Suc n) (c # s) =
     (if c = CHR 0x0A then ([c], s)
      else (case fgets_take n s of (l, r) \<Rightarrow> (c # l, r)))"

definition fgets :: "nat \<Rightarrow> string \<Rightarrow> (string \<times> string) option" where
  "fgets n fp = (if fp = [] then None else Some (fgets_take (n - 1) fp))"

text \<open>
  \<open>sscanf\<close>, for the formats of \<open>main.c\<close>: a white-space character of the format skips any
  white space of the input, \<open>%lu\<close> and \<open>%llu\<close> (both 64 bits wide here) skip white space and
  convert an optionally signed decimal number as \<open>strtoull\<close> does, any other character must
  match the input. The result is the number of conversions stored, or \<open>EOF\<close> when the input
  ends before the first conversion, together with the values stored.
\<close>

datatype directive = Lit char | Space | ConvU

fun parse_format :: "string \<Rightarrow> directive list" where
  "parse_format [] = []"
| "parse_format (c # cs) =
     (if c = CHR ''%'' \<and> take 3 cs = ''llu'' then ConvU # parse_format (drop 3 cs)
      else if c = CHR ''%'' \<and> take 2 cs = ''lu'' then ConvU # parse_format (drop 2 cs)
      else if isspace c then Space # parse_format cs
      else Lit c # parse_format cs)"

definition digits_value :: "string \<Rightarrow> nat" where
  "digits_value ds = foldl (\<lambda>a c. 10 * a + (of_char c - 48)) 0 ds"

definition strtoull_value :: "bool \<Rightarrow> string \<Rightarrow> 64 word" where
  \<comment> \<open>out of range: \<open>ULLONG_MAX\<close>; a minus sign negates in \<open>unsigned long long\<close>\<close>
  "strtoull_value neg ds =
     (let n = digits_value ds
      in if 2 ^ 64 \<le> n then - 1 else if neg then - of_nat n else of_nat n)"

definition conv_u64 :: "string \<Rightarrow> (64 word \<times> string) option" where
  "conv_u64 s =
     (let neg = (take 1 s = ''-'');
          s1 = (if take 1 s = ''-'' \<or> take 1 s = ''+'' then drop 1 s else s);
          ds = takeWhile isdigit s1
      in if ds = [] then None else Some (strtoull_value neg ds, dropWhile isdigit s1))"

datatype scan_end = Completed | MatchingFailure | InputFailure

fun scan :: "directive list \<Rightarrow> string \<Rightarrow> 64 word list \<times> scan_end" where
  "scan [] s = ([], Completed)"
| "scan (Lit c # ds) s =
     (case s of
        [] \<Rightarrow> ([], InputFailure)
      | x # xs \<Rightarrow> if x = c then scan ds xs else ([], MatchingFailure))"
| "scan (Space # ds) s = scan ds (dropWhile isspace s)"
| "scan (ConvU # ds) s =
     (if dropWhile isspace s = [] then ([], InputFailure)
      else (case conv_u64 (dropWhile isspace s) of
              None \<Rightarrow> ([], MatchingFailure)
            | Some (v, rest) \<Rightarrow> (case scan ds rest of (vs, e) \<Rightarrow> (v # vs, e))))"

definition EOF :: int where
  "EOF = - 1"

definition c_str :: "string \<Rightarrow> string" where
  \<comment> \<open>a buffer read as a C string ends at the first NUL\<close>
  "c_str buf = takeWhile (\<lambda>c. c \<noteq> CHR 0x00) buf"

definition sscanf :: "string \<Rightarrow> string \<Rightarrow> int \<times> 64 word list" where
  "sscanf buf fmt =
     (case scan (parse_format fmt) (c_str buf) of
        (vs, e) \<Rightarrow> (if vs = [] \<and> e = InputFailure then EOF else int (length vs), vs))"

section \<open>CPU collectors\<close>

text \<open>
  Linux: \<open>get_cpu_times\<close> reads the first line of \<open>/proc/stat\<close>. The argument is the text
  of the file, or \<open>None\<close> when \<open>fopen\<close> fails. \<open>Inl e\<close> is the return value \<open>-1\<close> after the
  diagnostic \<open>e\<close>, with \<open>*times\<close> untouched; \<open>Inr t\<close> is the return value \<open>0\<close> with \<open>t\<close> stored.
\<close>

definition get_cpu_times_linux :: "string option \<Rightarrow> error + cpu_times_t" where
  "get_cpu_times_linux proc_stat =
     (case proc_stat of
        None \<Rightarrow> Inl FopenFailed
      | Some fp \<Rightarrow>
          (case fgets 256 fp of
             None \<Rightarrow> Inl FgetsFailed
           | Some (buf, _) \<Rightarrow>
               (case sscanf buf ''cpu  %llu %llu %llu %llu'' of
                  (ret, vs) \<Rightarrow>
                    if ret < 4 then Inl ParseFailed
                    else Inr \<lparr>user = vs ! 0, nice = vs ! 1, system = vs ! 2, idle = vs ! 3,
                              intr = 0\<rparr>)))"

text \<open>
  FreeBSD: \<open>get_cpu_times\<close> asks \<open>sysctl\<close> twice. \<open>size_query\<close> is the length in bytes that the
  first call reports (\<open>None\<close>: the call fails), \<open>malloc_ok\<close> tells whether the buffer could be
  allocated, \<open>read_query\<close> is the buffer after the second call, as an array of \<open>long\<close>
  (\<open>None\<close>: the call fails). A \<open>long\<close> has 8 bytes.
\<close>

record kern_cp_time =
  size_query :: "64 word option"
  malloc_ok :: bool
  read_query :: "(nat \<Rightarrow> 64 word) option"

definition CPUSTATES :: nat where
  "CPUSTATES = 5"

definition add_core :: "(nat \<Rightarrow> 64 word) \<Rightarrow> nat \<Rightarrow> cpu_times_t \<Rightarrow> cpu_times_t" where
  \<comment> \<open>the body of the loop over the cores\<close>
  "add_core cp_times i acc =
     \<lparr>user = user acc + cp_times (i * CPUSTATES + 0),
      nice = nice acc + cp_times (i * CPUSTATES + 1),
      system = system acc + cp_times (i * CPUSTATES + 2),
      idle = idle acc + cp_times (i * CPUSTATES + 4),
      intr = intr acc + cp_times (i * CPUSTATES + 3)\<rparr>"

definition get_cpu_times_freebsd :: "kern_cp_time \<Rightarrow> error + cpu_times_t" where
  "get_cpu_times_freebsd k =
     (case size_query k of
        None \<Rightarrow> Inl SysctlSizeFailed
      | Some len \<Rightarrow>
          (let num_entries = sint (ucast (len div 8) :: 32 word);
               num_cpus = num_entries sdiv int CPUSTATES
           in if \<not> malloc_ok k then Inl MallocFailed
              else (case read_query k of
                      None \<Rightarrow> Inl SysctlReadFailed
                    | Some cp_times \<Rightarrow>
                        Inr (fold (add_core cp_times) [0 ..< nat num_cpus]
                               \<lparr>user = 0, nice = 0, system = 0, idle = 0, intr = 0\<rparr>))))"

definition no_cores :: kern_cp_time where
  \<comment> \<open>both queries succeed and report an empty array\<close>
  "no_cores = \<lparr>size_query = Some 0, malloc_ok = True, read_query = Some (\<lambda>_. 0)\<rparr>"

definition short_reply :: kern_cp_time where
  \<comment> \<open>both queries succeed and report a single \<open>long\<close>\<close>
  "short_reply = \<lparr>size_query = Some 8, malloc_ok = True, read_query = Some (\<lambda>_. 7)\<rparr>"

definition two_cores :: kern_cp_time where
  "two_cores = \<lparr>size_query = Some 80, malloc_ok = True,
                 read_query = Some (\<lambda>i. of_nat (i + 1))\<rparr>"

section \<open>Memory collectors\<close>

record usage =
  used_gb :: double
  total_gb :: double
  percent_used :: double

text \<open>Linux: the loop \<open>while (fgets(line, sizeof(line), fp))\<close> over \<open>/proc/meminfo\<close>.\<close>

function meminfo_loop :: "string \<Rightarrow> 64 word \<Rightarrow> 64 word \<Rightarrow> 64 word \<times> 64 word" where
  "meminfo_loop fp mem_total mem_available =
     (case fgets 256 fp of
        None \<Rightarrow> (mem_total, mem_available)
      | Some (line, fp') \<Rightarrow>
          (case sscanf line ''MemTotal: %lu kB'' of
             (r, vs) \<Rightarrow>
               if r = 1 then meminfo_loop fp' (hd vs) mem_available
               else (case sscanf line ''MemAvailable: %lu kB'' of
                       (r', vs') \<Rightarrow>
                         if r' = 1 then meminfo_loop fp' mem_total (hd vs')
                         else meminfo_loop fp' mem_total mem_available)))"
  by pat_completeness auto
termination
proof (relation "measure (\<lambda>(fp, _, _). length fp)")
  have le: "length (snd (fgets_take n s)) \<le> length s" for n s
    by (induction n s rule: fgets_take.induct) (auto split: prod.splits)
  have shorter: "length (snd (fgets_take (Suc n) (c # s))) < Suc (length s)" for n c s
    using le[of n s] by (auto split: prod.splits)
  have step: "length fp' < length fp" if "fgets 256 fp = Some (line, fp')" for fp line fp'
  proof (cases fp)
    case Nil
    with that show ?thesis by (simp add: fgets_def)
  next
    case (Cons c s)
    have "fgets_take (Suc 254) (c # s) = (line, fp')"
      using that by (simp add: fgets_def Cons)
    with shorter[of 254 c s] show ?thesis by (simp add: Cons)
  qed
  show "wf (measure (\<lambda>(fp, _, _). length fp))" by simp
  show "((fp', hd vs, mem_available), (fp, mem_total, mem_available))
          \<in> measure (\<lambda>(fp, _, _). length fp)"
    if "fgets 256 fp = Some x" "(line, fp') = x"
    for fp x line fp' and mem_total mem_available :: "64 word" and vs :: "64 word list"
    using step[of fp line fp'] that by simp
  show "((fp', mem_total, hd vs'), (fp, mem_total, mem_available))
          \<in> measure (\<lambda>(fp, _, _). length fp)"
    if "fgets 256 fp = Some x" "(line, fp') = x"
    for fp x line fp' and mem_total mem_available :: "64 word" and vs' :: "64 word list"
    using step[of fp line fp'] that by simp
  show "((fp', mem_total, mem_available), (fp, mem_total, mem_available))
          \<in> measure (\<lambda>(fp, _, _). length fp)"
    if "fgets 256 fp = Some x" "(line, fp') = x"
    for fp x line fp' and mem_total mem_available :: "64 word"
    using step[of fp line fp'] that by simp
qed

declare meminfo_loop.simps [simp del]

definition get_memory_usage_linux :: "string option \<Rightarrow> error + usage" where
  "get_memory_usage_linux proc_meminfo =
     (case proc_meminfo of
        None \<Rightarrow> Inl FopenFailed
      | Some fp \<Rightarrow>
          (case meminfo_loop fp 0 0 of
             (mem_total, mem_available) \<Rightarrow>
               if mem_total = 0 then Inl MemTotalMissing
               else (let total = fdiv (fdiv (double_of_u64 mem_total) (Fin 1024)) (Fin 1024);
                         mem_used = mem_total - mem_available;
                         used = fdiv (fdiv (double_of_u64 mem_used) (Fin 1024)) (Fin 1024);
                         percent = fmul (fdiv (double_of_u64 mem_used) (double_of_u64 mem_total))
                                        (Fin 100)
                     in Inr \<lparr>used_gb = used, total_gb = total, percent_used = percent\<rparr>)))"

text \<open>
  FreeBSD: \<open>hw_physmem\<close> and \<open>v_free_count\<close> are the values that \<open>sysctlbyname\<close> stores
  (\<open>None\<close>: the call fails), \<open>sc_pagesize\<close> is the \<open>long\<close> that \<open>sysconf\<close> returns.
\<close>

record vm_query =
  hw_physmem :: "64 word option"
  sc_pagesize :: "64 word"
  v_free_count :: "64 word option"

definition used_mem_freebsd :: "64 word \<Rightarrow> 64 word \<Rightarrow> 64 word \<Rightarrow> 64 word" where
  \<comment> \<open>\<open>free_mem\<close> and \<open>used_mem\<close>, in \<open>unsigned long\<close> arithmetic\<close>
  "used_mem_freebsd total_mem page_size free_pages =
     (let free_mem = free_pages * page_size
      in if total_mem > free_mem then total_mem - free_mem else 0)"

definition get_memory_usage_freebsd :: "vm_query \<Rightarrow> error + usage" where
  "get_memory_usage_freebsd q =
     (case hw_physmem q of
        None \<Rightarrow> Inl PhysmemFailed
      | Some total_mem \<Rightarrow>
          (let page_size = sc_pagesize q
           in if sint page_size < 0 then Inl PagesizeFailed
              else (case v_free_count q of
                      None \<Rightarrow> Inl FreeCountFailed
                    | Some free_pages \<Rightarrow>
                        (let used_mem = used_mem_freebsd total_mem page_size free_pages;
                             total = fdiv (fdiv (fdiv (double_of_u64 total_mem) (Fin 1024))
                                       (Fin 1024)) (Fin 1024);
                             used = fdiv (fdiv (fdiv (double_of_u64 used_mem) (Fin 1024))
                                      (Fin 1024)) (Fin 1024);
                             percent = fmul (fdiv (double_of_u64 used_mem)
                                         (double_of_u64 total_mem)) (Fin 100)
                         in Inr \<lparr>used_gb = used, total_gb = total, percent_used = percent\<rparr>))))"

definition vm_sample :: vm_query where
  "vm_sample = \<lparr>hw_physmem = Some 8589934592, sc_pagesize = 4096, v_free_count = Some 1048576\<rparr>"

section \<open>Disk collector\<close>

record statvfs_t =
  f_blocks :: "64 word"
  f_frsize :: "64 word"
  f_bfree :: "64 word"

definition get_disk_usage :: "statvfs_t option \<Rightarrow> error + usage" where
  "get_disk_usage statvfs_root =
     (case statvfs_root of
        None \<Rightarrow> Inl StatvfsFailed
      | Some vfs \<Rightarrow>
          (let total = f_blocks vfs * f_frsize vfs;
               free = f_bfree vfs * f_frsize vfs;
               used = total - free
           in Inr \<lparr>used_gb = fdiv (fdiv (fdiv (double_of_u64 used) (Fin 1024)) (Fin 1024))
                               (Fin 1024),
                    total_gb = fdiv (fdiv (fdiv (double_of_u64 total) (Fin 1024)) (Fin 1024))
                                (Fin 1024),
                    percent_used =
                      (if total \<noteq> 0
                       then fmul (fdiv (double_of_u64 used) (double_of_u64 total)) (Fin 100)
                       else Fin 0)\<rparr>))"

section \<open>Network interfaces\<close>

text \<open>
  The entries of the list that \<open>getifaddrs\<close> returns. \<open>ifa_addr\<close> may be \<open>NULL\<close> and is tested;
  \<open>ifa_netmask\<close> is read through the pointer without a test, so the model holds the lists in
  which it is set. Of a socket address the model keeps the family and the four bytes that
  the cast to \<open>struct sockaddr_in\<close> reads as \<open>sin_addr\<close>, most significant byte first.
  \<open>AF_INET\<close> and \<open>IFF_LOOPBACK\<close> have the values of the system headers of both platforms.
\<close>

record sockaddr =
  sa_family :: nat
  sin_addr :: "32 word"

record ifaddrs =
  ifa_name :: string
  ifa_flags :: "32 word"
  ifa_addr :: "sockaddr option"
  ifa_netmask :: sockaddr

definition AF_INET :: nat where
  "AF_INET = 2"

definition IFF_LOOPBACK :: "32 word" where
  "IFF_LOOPBACK = 0x8"

datatype line =
    Title | Rule
  | CpuUsage double
  | MemoryUsage double double double | MemoryError
  | DiskUsage double double double | DiskError
  | NetHeader
  | NetInterface string string string

datatype diag = Diag error | FailedInitialCpuTimes | FailedCpuTimes

text \<open>
  The loop over the list; \<open>inet_ntop\<close> is the conversion to dotted-decimal text,
  \<open>None\<close> when it returns \<open>NULL\<close>.
\<close>

fun print_entries :: "(32 word \<Rightarrow> string option) \<Rightarrow> ifaddrs list \<Rightarrow> line list" where
  "print_entries inet_ntop [] = []"
| "print_entries inet_ntop (ifa # ifa_next) =
     (case ifa_addr ifa of
        None \<Rightarrow> print_entries inet_ntop ifa_next
      | Some addr \<Rightarrow>
          if sa_family addr \<noteq> AF_INET then print_entries inet_ntop ifa_next
          else if ifa_flags ifa AND IFF_LOOPBACK \<noteq> 0 then print_entries inet_ntop ifa_next
          else (case inet_ntop (sin_addr addr) of
                  None \<Rightarrow> print_entries inet_ntop ifa_next
                | Some ip \<Rightarrow>
                    (case inet_ntop (sin_addr (ifa_netmask ifa)) of
                       None \<Rightarrow> print_entries inet_ntop ifa_next
                     | Some netmask \<Rightarrow>
                         NetInterface (ifa_name ifa) ip netmask
                           # print_entries inet_ntop ifa_next)))"

definition print_network_interfaces ::
  "(32 word \<Rightarrow> string option) \<Rightarrow> ifaddrs list option \<Rightarrow> line list \<times> diag list" where
  \<comment> \<open>what is written to standard output and to standard error\<close>
  "print_network_interfaces inet_ntop getifaddrs =
     (case getifaddrs of
        None \<Rightarrow> ([], [Diag GetifaddrsFailed])
      | Some ifaddr \<Rightarrow> (NetHeader # print_entries inet_ntop ifaddr, []))"

text \<open>\<open>inet_ntop(AF_INET, ...)\<close> with a buffer of \<open>INET_ADDRSTRLEN\<close> bytes: it cannot fail.\<close>

definition octet_str :: "nat \<Rightarrow> string" where
  "octet_str n =
     (let d = (\<lambda>k. ''0123456789'' ! k)
      in if 100 \<le> n then [d (n div 100), d (n div 10 mod 10), d (n mod 10)]
         else if 10 \<le> n then [d (n div 10), d (n mod 10)]
         else [d n])"

definition inet_ntop4 :: "32 word \<Rightarrow> string option" where
  "inet_ntop4 a =
     Some (octet_str (unat (drop_bit 24 a)) @ ''.''
         @ octet_str (unat (drop_bit 16 a AND 255)) @ ''.''
         @ octet_str (unat (drop_bit 8 a AND 255)) @ ''.''
         @ octet_str (unat (a AND 255)))"

section \<open>The report\<close>

text \<open>
  What the program reads from its host: the two readings of the CPU counters, one second
  apart, the memory figures, the statistics of the root file system and the interface list.
  A build reads only the sources of its platform.
\<close>

record host =
  os :: platform
  proc_stat_first :: "string option"
  proc_stat_second :: "string option"
  proc_meminfo :: "string option"
  cp_time_first :: kern_cp_time
  cp_time_second :: kern_cp_time
  vm_stats :: vm_query
  root_fs :: "statvfs_t option"
  interfaces :: "ifaddrs list option"

definition get_cpu_times_first :: "host \<Rightarrow> error + cpu_times_t" where
  "get_cpu_times_first h =
     (case os h of
        Linux \<Rightarrow> get_cpu_times_linux (proc_stat_first h)
      | FreeBSD \<Rightarrow> get_cpu_times_freebsd (cp_time_first h))"

definition get_cpu_times_second :: "host \<Rightarrow> error + cpu_times_t" where
  "get_cpu_times_second h =
     (case os h of
        Linux \<Rightarrow> get_cpu_times_linux (proc_stat_second h)
      | FreeBSD \<Rightarrow> get_cpu_times_freebsd (cp_time_second h))"

definition get_memory_usage :: "host \<Rightarrow> error + usage" where
  "get_memory_usage h =
     (case os h of
        Linux \<Rightarrow> get_memory_usage_linux (proc_meminfo h)
      | FreeBSD \<Rightarrow> get_memory_usage_freebsd (vm_stats h))"

definition EXIT_SUCCESS :: int where
  "EXIT_SUCCESS = 0"

definition EXIT_FAILURE :: int where
  "EXIT_FAILURE = 1"

record process =
  exit_code :: int
  stdout :: "line list"
  stderr :: "diag list"

definition main :: "host \<Rightarrow> process" where
  "main h =
     (case get_cpu_times_first h of
        Inl e \<Rightarrow>
          \<lparr>exit_code = EXIT_FAILURE, stdout = [Title, Rule],
           stderr = [Diag e, FailedInitialCpuTimes]\<rparr>
      | Inr prev \<Rightarrow>
          (case get_cpu_times_second h of
             Inl e \<Rightarrow>
               \<lparr>exit_code = EXIT_FAILURE, stdout = [Title, Rule],
                stderr = [Diag e, FailedCpuTimes]\<rparr>
           | Inr cur \<Rightarrow>
               (let cpu_usage = calc_cpu_usage (os h) prev cur;
                    mem = (case get_memory_usage h of
                             Inr u \<Rightarrow> ([MemoryUsage (used_gb u) (total_gb u) (percent_used u)], [])
                           | Inl e \<Rightarrow> ([MemoryError], [Diag e]));
                    disk = (case get_disk_usage (root_fs h) of
                              Inr u \<Rightarrow> ([DiskUsage (used_gb u) (total_gb u) (percent_used u)], [])
                            | Inl e \<Rightarrow> ([DiskError], [Diag e]));
                    net = print_network_interfaces inet_ntop4 (interfaces h)
                in \<lparr>exit_code = EXIT_SUCCESS,
                    stdout = [Title, Rule, CpuUsage cpu_usage] @ fst mem @ fst disk @ fst net,
                    stderr = snd mem @ snd disk @ snd net\<rparr>)))"

section \<open>The conversions of the aggregate CPU line\<close>

text \<open>
  What the conversions \<open>%llu\<close> take from a text, at most \<open>n\<close> of them, and what they take
  from a buffer after the prefix \<open>cpu\<close>.
\<close>

primrec extract_uints :: "nat \<Rightarrow> string \<Rightarrow> 64 word list" where
  "extract_uints 0 s = []"
| "extract_uints (Suc n) s =
     (case conv_u64 (dropWhile isspace s) of
        None \<Rightarrow> []
      | Some (v, rest) \<Rightarrow> v # extract_uints n rest)"

definition uints_after_cpu :: "nat \<Rightarrow> string \<Rightarrow> 64 word list" where
  "uints_after_cpu n buf =
     (if take 3 (c_str buf) = ''cpu'' then extract_uints n (drop 3 (c_str buf)) else [])"

text \<open>
  The aggregate CPU line as the specification words it. \<open>first_line\<close> is the first line of a
  file with its newline, however long. An unsigned integer is a run of decimal digits after
  optional white space, with the value the digits denote; \<open>cpu_line_uints\<close> extracts at most
  \<open>n\<close> of them after the prefix \<open>cpu\<close>. \<open>u64_sat\<close> is the 64-bit counter that holds such a
  value: \<open>2\<^sup>6\<^sup>4 - 1\<close> when the value does not fit.
\<close>

fun first_line :: "string \<Rightarrow> string" where
  "first_line [] = []"
| "first_line (c # s) = (if c = CHR 0x0A then [c] else c # first_line s)"

definition spec_uint :: "string \<Rightarrow> (nat \<times> string) option" where
  "spec_uint s =
     (let t = dropWhile isspace s; ds = takeWhile isdigit t
      in if ds = [] then None else Some (digits_value ds, dropWhile isdigit t))"

primrec spec_uints :: "nat \<Rightarrow> string \<Rightarrow> nat list" where
  "spec_uints 0 s = []"
| "spec_uints (Suc n) s =
     (case spec_uint s of
        None \<Rightarrow> []
      | Some (v, rest) \<Rightarrow> v # spec_uints n rest)"

definition cpu_line_uints :: "nat \<Rightarrow> string \<Rightarrow> nat list" where
  "cpu_line_uints n line = (if take 3 line = ''cpu'' then spec_uints n (drop 3 line) else [])"

definition u64_sat :: "nat \<Rightarrow> 64 word" where
  "u64_sat v = (if 2 ^ 64 \<le> v then - 1 else of_nat v)"

definition long_stat_line :: string where
  \<comment> \<open>an aggregate CPU line of 257 characters with the fields 1, 2, 3 and 45\<close>
  "long_stat_line = ''cpu'' @ replicate 245 (CHR '' '') @ ''1 2 3 45\<newline>''"

definition signed_stat_line :: string where
  "signed_stat_line = ''cpu  -1 2 3 4\<newline>''"

definition stat_sample :: string where
  "stat_sample = ''cpu  4705 150 1120 16250 520 0 17\<newline>cpu0 1393 0 225 4271\<newline>''"

section \<open>The lines of the memory table\<close>

text \<open>
  \<open>buffers fp\<close> are the successive results of \<open>fgets(line, 256, fp)\<close> until it returns
  \<open>NULL\<close>: the lines of the file, a line of more than 255 characters in several pieces.
  \<open>meminfo_step\<close> is the body of the loop of \<open>get_memory_usage\<close> on one of them.
\<close>

function buffers :: "string \<Rightarrow> string list" where
  "buffers fp =
     (case fgets 256 fp of
        None \<Rightarrow> []
      | Some (line, fp') \<Rightarrow> line # buffers fp')"
  by pat_completeness auto
termination
proof (relation "measure length")
  have le: "length (snd (fgets_take n s)) \<le> length s" for n s
    by (induction n s rule: fgets_take.induct) (auto split: prod.splits)
  have shorter: "length (snd (fgets_take (Suc n) (c # s))) < Suc (length s)" for n c s
    using le[of n s] by (auto split: prod.splits)
  show "wf (measure length)" by simp
  show "(fp', fp) \<in> measure length"
    if "fgets 256 fp = Some x" "(line, fp') = x" for fp x line fp'
  proof (cases fp)
    case Nil
    with that show ?thesis by (simp add: fgets_def)
  next
    case (Cons c s)
    have "fgets_take (Suc 254) (c # s) = (line, fp')"
      using that by (simp add: fgets_def Cons)
    with shorter[of 254 c s] show ?thesis by (simp add: Cons)
  qed
qed

declare buffers.simps [simp del]

definition meminfo_step :: "64 word \<times> 64 word \<Rightarrow> string \<Rightarrow> 64 word \<times> 64 word" where
  "meminfo_step acc line =
     (case acc of
        (mem_total, mem_available) \<Rightarrow>
          (case sscanf line ''MemTotal: %lu kB'' of
             (r, vs) \<Rightarrow>
               if r = 1 then (hd vs, mem_available)
               else (case sscanf line ''MemAvailable: %lu kB'' of
                       (r', vs') \<Rightarrow>
                         if r' = 1 then (mem_total, hd vs')
                         else (mem_total, mem_available))))"

definition meminfo_fixture :: string where
  "meminfo_fixture =
     ''MemTotal:       24670208 kB\<newline>MemFree:        22145984 kB\<newline>MemAvailable:   23488000 kB\<newline>''"

definition meminfo_two_totals :: string where
  \<comment> \<open>a table with two \<open>MemTotal\<close> lines and no \<open>MemAvailable\<close> line\<close>
  "meminfo_two_totals = ''MemTotal:              5 kB\<newline>MemTotal:              0 kB\<newline>''"

definition meminfo_no_available :: string where
  "meminfo_no_available = ''MemTotal:        2048000 kB\<newline>MemFree:          512000 kB\<newline>''"

section \<open>The interface filter, as the specification words it\<close>

text \<open>
  An entry is \<open>eligible\<close> when it has an address, the address family is IPv4 and the
  loopback flag is not set; it is \<open>convertible\<close> when both its address and its netmask
  convert to dotted-decimal text; \<open>record_of\<close> is the record printed for it.
\<close>

definition eligible :: "ifaddrs \<Rightarrow> bool" where
  "eligible ifa \<longleftrightarrow>
     (case ifa_addr ifa of None \<Rightarrow> False | Some addr \<Rightarrow> sa_family addr = AF_INET)
       \<and> ifa_flags ifa AND IFF_LOOPBACK = 0"

definition convertible :: "(32 word \<Rightarrow> string option) \<Rightarrow> ifaddrs \<Rightarrow> bool" where
  "convertible inet_ntop ifa \<longleftrightarrow>
     (case ifa_addr ifa of None \<Rightarrow> False | Some addr \<Rightarrow> inet_ntop (sin_addr addr) \<noteq> None)
       \<and> inet_ntop (sin_addr (ifa_netmask ifa)) \<noteq> None"

definition record_of :: "(32 word \<Rightarrow> string option) \<Rightarrow> ifaddrs \<Rightarrow> line" where
  "record_of inet_ntop ifa =
     NetInterface (ifa_name ifa)
       (the (inet_ntop (sin_addr (the (ifa_addr ifa)))))
       (the (inet_ntop (sin_addr (ifa_netmask ifa))))"

definition if_lo :: ifaddrs where
  "if_lo = \<lparr>ifa_name = ''lo'', ifa_flags = 0x49,
            ifa_addr = Some \<lparr>sa_family = 2, sin_addr = 0x7F000001\<rparr>,
            ifa_netmask = \<lparr>sa_family = 2, sin_addr = 0xFF000000\<rparr>\<rparr>"

definition if_eth0 :: ifaddrs where
  "if_eth0 = \<lparr>ifa_name = ''eth0'', ifa_flags = 0x1043,
              ifa_addr = Some \<lparr>sa_family = 2, sin_addr = 0xC0A8010A\<rparr>,
              ifa_netmask = \<lparr>sa_family = 2, sin_addr = 0xFFFFFF00\<rparr>\<rparr>"

definition if_eth0_v6 :: ifaddrs where
  "if_eth0_v6 = \<lparr>ifa_name = ''eth0'', ifa_flags = 0x1043,
                 ifa_addr = Some \<lparr>sa_family = 10, sin_addr = 0\<rparr>,
                 ifa_netmask = \<lparr>sa_family = 10, sin_addr = 0xFFFFFFFF\<rparr>\<rparr>"

definition if_docker0 :: ifaddrs where
  "if_docker0 = \<lparr>ifa_name = ''docker0'', ifa_flags = 0x1003,
                 ifa_addr = Some \<lparr>sa_family = 2, sin_addr = 0xAC110001\<rparr>,
                 ifa_netmask = \<lparr>sa_family = 2, sin_addr = 0xFFFF0000\<rparr>\<rparr>"

definition ntop_rejecting :: "32 word \<Rightarrow> 32 word \<Rightarrow> string option" where
  \<comment> \<open>a conversion that fails on one address\<close>
  "ntop_rejecting bad a = (if a = bad then None else inet_ntop4 a)"

section \<open>Sample hosts\<close>

definition host_partial :: host where
  \<comment> \<open>a Linux host where \<open>/proc/meminfo\<close>, \<open>statvfs\<close> and \<open>getifaddrs\<close> fail\<close>
  "host_partial =
     \<lparr>os = Linux, proc_stat_first = Some stat_sample,
      proc_stat_second = Some ''cpu  4805 150 1130 16440 520 0 17\<newline>'',
      proc_meminfo = None, cp_time_first = no_cores, cp_time_second = no_cores,
      vm_stats = vm_sample, root_fs = None, interfaces = None\<rparr>"

definition host_second_fails :: host where
  \<comment> \<open>a Linux host where \<open>/proc/stat\<close> cannot be opened the second time\<close>
  "host_second_fails =
     \<lparr>os = Linux, proc_stat_first = Some stat_sample, proc_stat_second = None,
      proc_meminfo = Some meminfo_fixture, cp_time_first = no_cores, cp_time_second = no_cores,
      vm_stats = vm_sample, root_fs = Some \<lparr>f_blocks = 1000, f_frsize = 4096, f_bfree = 400\<rparr>,
      interfaces = Some [if_lo, if_eth0]\<rparr>"

section \<open>Rounding to double precision\<close>

lemma ilog2_bounds:
  assumes "0 < x"
  shows "2 powi ilog2 x \<le> x" and "x < 2 powi (ilog2 x + 1)"
proof -
  have "2 powi ilog2 x \<le> x \<and> x < 2 powi (ilog2 x + 1)"
  proof (cases "1 \<le> x")
    case True
    define n where "n = \<lfloor>x\<rfloor>"
    have n: "0 < n" using True by (simp add: n_def)
    have e: "ilog2 x = bitlen n - 1" using True by (simp add: ilog2_def n_def)
    from bitlen_bounds[OF n] have b: "2 ^ nat (bitlen n - 1) \<le> n" "n < 2 ^ nat (bitlen n)" by auto
    have ge1: "1 \<le> bitlen n" using n by (simp add: bitlen_alt_def)
    have "(2::rat) powi (bitlen n - 1) = of_int (2 ^ nat (bitlen n - 1))"
      using ge1 by (simp add: power_int_def)
    also have "\<dots> \<le> of_int n" using b(1) by (simp only: of_int_le_iff)
    also have "\<dots> \<le> x" by (simp add: n_def)
    finally have lo: "2 powi ilog2 x \<le> x" by (simp add: e)
    have "n + 1 \<le> 2 ^ nat (bitlen n)" using b(2) by simp
    then have "(of_int (n + 1) :: rat) \<le> of_int (2 ^ nat (bitlen n))" by (simp only: of_int_le_iff)
    moreover have "x < of_int (n + 1)" unfolding n_def by linarith
    moreover have "(2::rat) powi (bitlen n) = of_int (2 ^ nat (bitlen n))"
      using ge1 by (simp add: power_int_def)
    ultimately have "x < 2 powi (ilog2 x + 1)" by (simp add: e)
    with lo show ?thesis by simp
  next
    case False
    define n where "n = \<lceil>1 / x\<rceil> - 1"
    have y: "1 < 1 / x" using False assms by simp
    have n: "0 < n" using y unfolding n_def by linarith
    have e: "ilog2 x = - bitlen n" using False by (simp add: ilog2_def n_def)
    from bitlen_bounds[OF n] have b: "2 ^ nat (bitlen n - 1) \<le> n" "n < 2 ^ nat (bitlen n)" by auto
    have ge1: "1 \<le> bitlen n" using n by (simp add: bitlen_alt_def)
    have "1 / x \<le> of_int (n + 1)" unfolding n_def by simp
    also have "\<dots> \<le> of_int (2 ^ nat (bitlen n))" using b(2) by (simp only: of_int_le_iff)
    also have "\<dots> = 2 powi (bitlen n)" using ge1 by (simp add: power_int_def)
    finally have "1 / x \<le> 2 powi bitlen n" .
    then have "1 \<le> 2 powi bitlen n * x" using assms by (simp add: field_simps)
    then have lo: "2 powi ilog2 x \<le> x"
      by (simp add: e power_int_minus field_simps)
    have "(2::rat) powi (bitlen n - 1) = of_int (2 ^ nat (bitlen n - 1))"
      using ge1 by (simp add: power_int_def)
    also have "\<dots> \<le> of_int n" using b(1) by (simp only: of_int_le_iff)
    also have "\<dots> < 1 / x" unfolding n_def by linarith
    finally have "2 powi (bitlen n - 1) < 1 / x" .
    then have "x * 2 powi (bitlen n - 1) < 1" using assms by (simp add: field_simps)
    moreover have "0 < (2::rat) powi (bitlen n - 1)" by simp
    ultimately have "x < inverse (2 powi (bitlen n - 1))"
      by (simp add: field_simps)
    also have "\<dots> = 2 powi (- (bitlen n - 1))" by (simp only: power_int_minus)
    finally have "x < 2 powi (ilog2 x + 1)" by (simp add: e)
    with lo show ?thesis by simp
  qed
  then show "2 powi ilog2 x \<le> x" and "x < 2 powi (ilog2 x + 1)" by simp_all
qed

lemma ilog2_mono:
  assumes "0 < x" "x \<le> y"
  shows "ilog2 x \<le> ilog2 y"
proof (rule ccontr)
  assume "\<not> ilog2 x \<le> ilog2 y"
  then have "ilog2 y + 1 \<le> ilog2 x" by simp
  then have "(2::rat) powi (ilog2 y + 1) \<le> 2 powi ilog2 x"
    by (intro power_int_increasing) simp_all
  moreover have "y < 2 powi (ilog2 y + 1)" using assms by (intro ilog2_bounds) simp
  moreover have "2 powi ilog2 x \<le> x" using assms by (intro ilog2_bounds)
  ultimately show False using assms by simp
qed

lemma round_half_even_of_int [simp]: "round_half_even (of_int n) = n"
  by (simp add: round_half_even_def)

lemma round_half_even_floor: "\<lfloor>x\<rfloor> \<le> round_half_even x"
  by (simp add: round_half_even_def Let_def)

lemma round_half_even_ceiling: "round_half_even x \<le> \<lfloor>x\<rfloor> + 1"
  by (simp add: round_half_even_def Let_def)

lemma round_half_even_mono:
  assumes "x \<le> y"
  shows "round_half_even x \<le> round_half_even y"
proof (cases "\<lfloor>x\<rfloor> = \<lfloor>y\<rfloor>")
  case True
  then show ?thesis using assms by (auto simp add: round_half_even_def Let_def)
next
  case False
  then have lt: "\<lfloor>x\<rfloor> + 1 \<le> \<lfloor>y\<rfloor>" using floor_mono[OF assms] by simp
  have "round_half_even x \<le> \<lfloor>x\<rfloor> + 1" by (rule round_half_even_ceiling)
  also note lt
  also have "\<lfloor>y\<rfloor> \<le> round_half_even y" by (rule round_half_even_floor)
  finally show ?thesis .
qed

lemma round_half_even_ge: "of_int n \<le> x \<Longrightarrow> n \<le> round_half_even x"
  using round_half_even_mono[of "of_int n" x] by simp

lemma round_half_even_le: "x \<le> of_int n \<Longrightarrow> round_half_even x \<le> n"
  using round_half_even_mono[of x "of_int n"] by simp

lemma ulp_exp_mono: "0 < x \<Longrightarrow> x \<le> y \<Longrightarrow> ulp_exp x \<le> ulp_exp y"
  using ilog2_mono[of x y] by (simp add: ulp_exp_def)

lemma round_binary64_pos:
  "0 < x \<Longrightarrow> round_binary64 x = of_int (round_half_even (x / 2 powi ulp_exp x)) * 2 powi ulp_exp x"
  by (simp add: round_binary64_def)

lemma round_binary64_nonneg: "0 \<le> x \<Longrightarrow> 0 \<le> round_binary64 x"
proof -
  assume "0 \<le> x"
  show ?thesis
  proof (cases "x = 0")
    case True then show ?thesis by (simp add: round_binary64_def)
  next
    case False
    with \<open>0 \<le> x\<close> have x: "0 < x" by simp
    have "(of_int 0 :: rat) \<le> x / 2 powi ulp_exp x" using x by simp
    then have "0 \<le> round_half_even (x / 2 powi ulp_exp x)" by (rule round_half_even_ge)
    then show ?thesis using x by (simp add: round_binary64_pos)
  qed
qed

lemma round_binary64_mono_pos:
  assumes x: "0 < x" and xy: "x \<le> y"
  shows "round_binary64 x \<le> round_binary64 y"
proof -
  have y: "0 < y" using x xy by simp
  define a where "a = ulp_exp x"
  define b where "b = ulp_exp y"
  have ab: "a \<le> b" unfolding a_def b_def using x xy by (rule ulp_exp_mono)
  show ?thesis
  proof (cases "a = b")
    case True
    have "x / 2 powi a \<le> y / 2 powi a" using xy by (simp add: divide_right_mono)
    then have "round_half_even (x / 2 powi a) \<le> round_half_even (y / 2 powi a)"
      by (rule round_half_even_mono)
    then have "(of_int (round_half_even (x / 2 powi a)) :: rat) * 2 powi a
             \<le> of_int (round_half_even (y / 2 powi a)) * 2 powi a"
      by (intro mult_right_mono) simp_all
    then show ?thesis using x y True by (simp add: round_binary64_pos a_def b_def)
  next
    case False
    with ab have lt: "a < b" by simp
    then have bdef: "b = ilog2 y - 52" and il: "ilog2 x - 52 < b"
      unfolding a_def b_def ulp_exp_def by auto
    have ylo: "2 powi (b + 52) \<le> y" using ilog2_bounds(1)[OF y] by (simp add: bdef)
    have "ilog2 x + 1 \<le> b + 52" using il by simp
    then have "(2::rat) powi (ilog2 x + 1) \<le> 2 powi (b + 52)"
      by (intro power_int_increasing) simp_all
    then have xhi: "x \<le> 2 powi (b + 52)" using ilog2_bounds(2)[OF x] by simp
    have P: "(2::rat) powi (b + 52) = 2 ^ 52 * 2 powi b"
      by (simp add: power_int_add)
    have "(of_int (2 ^ 52) :: rat) \<le> y / 2 powi b" using ylo by (simp add: P field_simps)
    then have "2 ^ 52 \<le> round_half_even (y / 2 powi b)" by (rule round_half_even_ge)
    then have "(of_int (2 ^ 52) :: rat) \<le> of_int (round_half_even (y / 2 powi b))"
      by (simp only: of_int_le_iff)
    then have "(of_int (2 ^ 52) :: rat) * 2 powi b \<le> of_int (round_half_even (y / 2 powi b)) * 2 powi b"
      by (intro mult_right_mono) simp_all
    then have R: "2 powi (b + 52) \<le> round_binary64 y"
      using y by (simp add: round_binary64_pos b_def[symmetric] P)
    have k: "0 \<le> b + 52 - a" using lt by simp
    have Q: "(2::rat) powi (b + 52) = of_int (2 ^ nat (b + 52 - a)) * 2 powi a"
    proof -
      have "(2::rat) powi (b + 52) = 2 powi (b + 52 - a) * 2 powi a"
        by (simp add: power_int_add[symmetric])
      also have "(2::rat) powi (b + 52 - a) = of_int (2 ^ nat (b + 52 - a))"
        using k by (simp add: power_int_def)
      finally show ?thesis .
    qed
    have "x / 2 powi a \<le> of_int (2 ^ nat (b + 52 - a))"
      using xhi by (simp add: Q field_simps)
    then have "round_half_even (x / 2 powi a) \<le> 2 ^ nat (b + 52 - a)" by (rule round_half_even_le)
    then have "(of_int (round_half_even (x / 2 powi a)) :: rat) \<le> of_int (2 ^ nat (b + 52 - a))"
      by (simp only: of_int_le_iff)
    then have "(of_int (round_half_even (x / 2 powi a)) :: rat) * 2 powi a \<le> of_int (2 ^ nat (b + 52 - a)) * 2 powi a"
      by (intro mult_right_mono) simp_all
    then have "round_binary64 x \<le> 2 powi (b + 52)"
      using x by (simp add: round_binary64_pos a_def[symmetric] Q)
    with R show ?thesis by simp
  qed
qed

lemma round_binary64_mono:
  assumes "0 \<le> x" "x \<le> y"
  shows "round_binary64 x \<le> round_binary64 y"
proof (cases "x = 0")
  case True
  then show ?thesis using assms round_binary64_nonneg[of y] by (simp add: round_binary64_def)
next
  case False
  then show ?thesis using assms by (intro round_binary64_mono_pos) simp_all
qed

lemma round_binary64_1: "round_binary64 1 = 1" by code_simp
lemma round_binary64_100: "round_binary64 100 = 100" by code_simp
lemma round_binary64_2_64: "round_binary64 (2 ^ 64) = 2 ^ 64" by code_simp

lemma to_double_bounded:
  assumes "0 \<le> x" "x \<le> c" "round_binary64 c = c" "c < 2 ^ 1024"
  shows "to_double x = Fin (round_binary64 x)" and "0 \<le> round_binary64 x" and "round_binary64 x \<le> c"
proof -
  show nn: "0 \<le> round_binary64 x" using assms(1) by (rule round_binary64_nonneg)
  show le: "round_binary64 x \<le> c" using round_binary64_mono[OF assms(1,2)] assms(3) by simp
  have "round_binary64 x < 2 ^ 1024" using le assms(4) by simp
  moreover have "- (2 ^ 1024) < round_binary64 x"
    using nn by (rule less_le_trans[rotated]) simp
  ultimately show "to_double x = Fin (round_binary64 x)"
    by (simp add: to_double_def Let_def)
qed

lemma to_double_1: "to_double 1 = Fin 1"
  using to_double_bounded(1)[of 1 1] by (simp add: round_binary64_1)

lemma to_double_100: "to_double 100 = Fin 100"
  using to_double_bounded(1)[of 100 100] by (simp add: round_binary64_100)

lemma u64_rat_bounds: "(0::rat) \<le> unsigned (w :: 64 word)" "(unsigned (w :: 64 word) :: rat) \<le> 2 ^ 64"
proof -
  have "(0::rat) \<le> of_nat (unat w)" by (rule of_nat_0_le_iff)
  then show "(0::rat) \<le> unsigned w" by simp
  have "unat w < 2 ^ 64" using unsigned_less[of w, where 'a=nat] by simp
  then have "unat w \<le> 2 ^ 64" by simp
  then have "(of_nat (unat w) :: rat) \<le> of_nat (2 ^ 64)" by (rule of_nat_mono)
  then show "(unsigned w :: rat) \<le> 2 ^ 64" by simp
qed

lemma u64_rat_mono: "a \<le> t \<Longrightarrow> (unsigned (a :: 64 word) :: rat) \<le> unsigned t"
proof -
  assume "a \<le> t"
  then have "unat a \<le> unat t" by (simp add: word_le_nat_alt)
  then have "(of_nat (unat a) :: rat) \<le> of_nat (unat t)" by (rule of_nat_mono)
  then show ?thesis by simp
qed

lemma double_of_u64_Fin: "double_of_u64 w = Fin (round_binary64 (unsigned w))"
  using to_double_bounded(1)[OF u64_rat_bounds[of w] round_binary64_2_64]
  by (simp add: double_of_u64_def)

lemma round_u64_pos:
  assumes "w \<noteq> (0 :: 64 word)"
  shows "1 \<le> round_binary64 (unsigned w)"
proof -
  have "1 \<le> w" using assms by (simp add: word_le_nat_alt unat_gt_0 Suc_le_eq)
  from u64_rat_mono[OF this] have "(1::rat) \<le> unsigned w" by simp
  from round_binary64_mono[OF _ this] show ?thesis by (simp add: round_binary64_1)
qed

lemma ratio_percent:
  assumes "a \<le> t" "t \<noteq> (0 :: 64 word)"
  shows "\<exists>r. fmul (fdiv (double_of_u64 a) (double_of_u64 t)) (Fin 100) = Fin r \<and> 0 \<le> r \<and> r \<le> 100"
proof -
  define ra where "ra = round_binary64 (unsigned a)"
  define rt where "rt = round_binary64 (unsigned t)"
  have rt: "1 \<le> rt" unfolding rt_def using assms(2) by (rule round_u64_pos)
  have ra: "0 \<le> ra" unfolding ra_def using u64_rat_bounds(1) by (rule round_binary64_nonneg)
  have le: "ra \<le> rt" unfolding ra_def rt_def
    using u64_rat_bounds(1) u64_rat_mono[OF assms(1)] by (rule round_binary64_mono)
  have q0: "0 \<le> ra / rt" using ra rt by simp
  have q1: "ra / rt \<le> 1" using le rt by simp
  note Q = to_double_bounded[OF q0 q1 round_binary64_1]
  define q where "q = round_binary64 (ra / rt)"
  have "rt \<noteq> 0" using rt by simp
  then have "fdiv (Fin ra) (Fin rt) = Fin q" using Q(1) by (simp add: q_def)
  then have dq: "fdiv (double_of_u64 a) (double_of_u64 t) = Fin q"
    by (simp only: double_of_u64_Fin ra_def rt_def)
  have qb: "0 \<le> q" "q \<le> 1" using Q(2,3) by (simp_all add: q_def)
  have p0: "0 \<le> q * 100" using qb by simp
  have p1: "q * 100 \<le> 100" using qb by simp
  note P = to_double_bounded[OF p0 p1 round_binary64_100]
  have "fmul (Fin q) (Fin 100) = Fin (round_binary64 (q * 100))" using P(1) by simp
  with dq P(2,3) show ?thesis by simp
qed

lemma ratio_full:
  assumes "t \<noteq> (0 :: 64 word)"
  shows "fmul (fdiv (double_of_u64 t) (double_of_u64 t)) (Fin 100) = Fin 100"
proof -
  have "1 \<le> round_binary64 (unsigned t)" using assms by (rule round_u64_pos)
  then have "fdiv (double_of_u64 t) (double_of_u64 t) = Fin 1"
    by (simp add: double_of_u64_Fin to_double_1)
  then show ?thesis by (simp add: to_double_100)
qed

lemma round_u64_max: "round_binary64 18446744073709551615 = 18446744073709551616" by code_simp
lemma round_binary64_u64_max_percent: "round_binary64 1844674407370955161600 = 1844674407370955161600" by code_simp
lemma to_double_u64_max_percent: "to_double 1844674407370955161600 = Fin 1844674407370955161600"
  using to_double_bounded(1)[of 1844674407370955161600 1844674407370955161600] by (simp add: round_binary64_u64_max_percent)
lemma to_double_2_64: "to_double 18446744073709551616 = Fin 18446744073709551616"
  using to_double_bounded(1)[of 18446744073709551616 18446744073709551616] round_binary64_2_64 by simp

section \<open>Properties of the CPU usage estimate\<close>

lemma calc_cpu_usage_unfold:
  "calc_cpu_usage plat prev cur =
     (if total plat cur - total plat prev = 0 then Fin 0
      else fmul (fdiv (double_of_u64 (active plat cur - active plat prev))
                      (double_of_u64 (total plat cur - total plat prev))) (Fin 100))"
  by (simp add: calc_cpu_usage_def total_def Let_def)

lemma unat_add3:
  fixes a b c :: "64 word"
  assumes "unat a + unat b + unat c < 2 ^ 64"
  shows "unat (a + b + c) = unat a + unat b + unat c"
proof -
  have "unat a + unat b < 2 ^ 64" using assms by simp
  then have ab: "unat (a + b) = unat a + unat b" by (simp add: unat_add_lem[THEN iffD1])
  have "unat (a + b) + unat c < 2 ^ 64" using assms ab by simp
  then have "unat (a + b + c) = unat (a + b) + unat c" by (simp add: unat_add_lem[THEN iffD1])
  with ab show ?thesis by simp
qed

lemma unat_add2:
  fixes a b :: "64 word"
  assumes "unat a + unat b < 2 ^ 64"
  shows "unat (a + b) = unat a + unat b"
  using assms by (simp add: unat_add_lem[THEN iffD1])

lemma deltas_ordered:
  assumes c: "cumulative plat prev cur"
    and n: "total_ticks plat cur - total_ticks plat prev < 2 ^ 64"
  shows "active plat cur - active plat prev \<le> total plat cur - total plat prev"
proof -
  define du where "du = user cur - user prev"
  define dn where "dn = nice cur - nice prev"
  define ds where "ds = system cur - system prev"
  define dl where "dl = idle cur - idle prev"
  define di where "di = (case plat of FreeBSD \<Rightarrow> intr cur - intr prev | Linux \<Rightarrow> 0)"
  have u: "unat du = unat (user cur) - unat (user prev)" "unat (user prev) \<le> unat (user cur)"
    using c by (simp_all add: du_def cumulative_def unat_sub word_le_nat_alt)
  have nn: "unat dn = unat (nice cur) - unat (nice prev)" "unat (nice prev) \<le> unat (nice cur)"
    using c by (simp_all add: dn_def cumulative_def unat_sub word_le_nat_alt)
  have s: "unat ds = unat (system cur) - unat (system prev)"
    "unat (system prev) \<le> unat (system cur)"
    using c by (simp_all add: ds_def cumulative_def unat_sub word_le_nat_alt)
  have l: "unat dl = unat (idle cur) - unat (idle prev)" "unat (idle prev) \<le> unat (idle cur)"
    using c by (simp_all add: dl_def cumulative_def unat_sub word_le_nat_alt)
  have i: "unat di = (case plat of FreeBSD \<Rightarrow> unat (intr cur) - unat (intr prev) | Linux \<Rightarrow> 0)"
    "(case plat of FreeBSD \<Rightarrow> unat (intr prev) | Linux \<Rightarrow> 0)
       \<le> (case plat of FreeBSD \<Rightarrow> unat (intr cur) | Linux \<Rightarrow> 0)"
    using c by (cases plat; simp add: di_def cumulative_def unat_sub word_le_nat_alt)+
  have sum: "unat du + unat dn + unat ds + unat di + unat dl
               = total_ticks plat cur - total_ticks plat prev"
    using u nn s l i by (cases plat; simp add: total_ticks_def)
  have a: "active plat cur - active plat prev = du + dn + ds + di"
    by (cases plat; simp add: active_def du_def dn_def ds_def di_def)
  have t: "total plat cur - total plat prev = du + dn + ds + di + dl"
    by (cases plat; simp add: total_def active_def du_def dn_def ds_def di_def dl_def)
  have b3: "unat du + unat dn + unat ds < 2 ^ 64" using sum n by simp
  have b4: "unat (du + dn + ds) + unat di < 2 ^ 64" using sum n by (simp add: unat_add3[OF b3])
  have ua: "unat (du + dn + ds + di) = unat du + unat dn + unat ds + unat di"
    by (simp add: unat_add2[OF b4] unat_add3[OF b3])
  have b5: "unat (du + dn + ds + di) + unat dl < 2 ^ 64" using sum n by (simp add: ua)
  have ut: "unat (du + dn + ds + di + dl) = unat du + unat dn + unat ds + unat di + unat dl"
    by (simp add: unat_add2[OF b5] ua)
  show ?thesis by (simp add: a t word_le_nat_alt ua ut)
qed

text \<open>
  C1, as the code has it: when no counter of the later sample is below its value in the
  earlier one (so that the later total is not below the earlier one) and the total has
  grown by less than \<open>2\<^sup>6\<^sup>4\<close> ticks between the two samples, \<open>calc_cpu_usage\<close> returns a
  finite value between 0 and 100. The bound on the growth is needed: the totals and their
  difference are computed in \<open>unsigned long long\<close> and wrap around.
\<close>

theorem calc_cpu_usage_range:
  assumes "cumulative plat prev cur"
    and "total_ticks plat prev \<le> total_ticks plat cur"
    and "total_ticks plat cur - total_ticks plat prev < 2 ^ 64"
  shows "\<exists>r. calc_cpu_usage plat prev cur = Fin r \<and> 0 \<le> r \<and> r \<le> 100"
proof (cases "total plat cur - total plat prev = 0")
  case True
  then show ?thesis by (simp add: calc_cpu_usage_unfold)
next
  case False
  from ratio_percent[OF deltas_ordered[OF assms(1,3)] False] show ?thesis
    using False by (simp add: calc_cpu_usage_unfold)
qed

theorem calc_cpu_usage_range_witness:
  "cumulative Linux sample_a sample_b \<and> total_ticks Linux sample_a \<le> total_ticks Linux sample_b
   \<and> total_ticks Linux sample_b - total_ticks Linux sample_a < 2 ^ 64
   \<and> (\<exists>r. calc_cpu_usage Linux sample_a sample_b = Fin r \<and> 0 \<le> r \<and> r \<le> 100)"
proof -
  have h1: "cumulative Linux sample_a sample_b" by (simp add: cumulative_def sample_a_def sample_b_def)
  have h2: "total_ticks Linux sample_a \<le> total_ticks Linux sample_b"
    by (simp add: total_ticks_def sample_a_def sample_b_def)
  have h3: "total_ticks Linux sample_b - total_ticks Linux sample_a < 2 ^ 64"
    by (simp add: total_ticks_def sample_a_def sample_b_def)
  from calc_cpu_usage_range[OF h1 h2 h3] h1 h2 h3 show ?thesis by blast
qed

text \<open>
  C1 as stated fails when the sum of the counters wraps around: from an all-zero sample to
  \<open>user = 2\<^sup>6\<^sup>4 - 1\<close>, \<open>idle = 2\<close> every counter has grown and the total as computed went
  from 0 to 1, and the result is \<open>100 * 2\<^sup>6\<^sup>4\<close>.
\<close>

theorem calc_cpu_usage_range_counterexample:
  "cumulative Linux sample_zero sample_huge
   \<and> total_ticks Linux sample_zero \<le> total_ticks Linux sample_huge
   \<and> total Linux sample_zero \<le> total Linux sample_huge
   \<and> calc_cpu_usage Linux sample_zero sample_huge = Fin 1844674407370955161600
   \<and> \<not> (1844674407370955161600 :: rat) \<le> 100"
proof -
  have t: "total Linux sample_huge - total Linux sample_zero = 1"
    by (simp add: total_def active_def sample_zero_def sample_huge_def)
  have a: "active Linux sample_huge - active Linux sample_zero = 18446744073709551615"
    by (simp add: active_def sample_zero_def sample_huge_def)
  have d1: "double_of_u64 1 = Fin 1" by (simp add: double_of_u64_Fin round_binary64_1)
  have d2: "double_of_u64 18446744073709551615 = Fin 18446744073709551616"
    by (simp add: double_of_u64_Fin round_u64_max)
  have "calc_cpu_usage Linux sample_zero sample_huge = Fin 1844674407370955161600"
    by (simp add: calc_cpu_usage_unfold t a d1 d2 to_double_u64_max_percent to_double_2_64)
  moreover have "cumulative Linux sample_zero sample_huge"
    by (simp add: cumulative_def sample_zero_def sample_huge_def)
  moreover have "total_ticks Linux sample_zero \<le> total_ticks Linux sample_huge"
    by (simp add: total_ticks_def sample_zero_def sample_huge_def)
  moreover have "total Linux sample_zero \<le> total Linux sample_huge"
    by (simp add: total_def active_def sample_zero_def sample_huge_def)
  ultimately show ?thesis by simp
qed

text \<open>
  C4: when the difference of the totals is 0, and so for a sample paired with itself,
  \<open>calc_cpu_usage\<close> returns 0.0; the division is not evaluated.
\<close>

theorem calc_cpu_usage_zero_delta:
  "(total plat cur - total plat prev = 0 \<longrightarrow> calc_cpu_usage plat prev cur = Fin 0)
   \<and> calc_cpu_usage plat s s = Fin 0"
  by (simp add: calc_cpu_usage_unfold)

theorem calc_cpu_usage_zero_delta_witness:
  "total Linux sample_c - total Linux sample_a = 0 \<and> sample_c \<noteq> sample_a
   \<and> calc_cpu_usage Linux sample_a sample_c = Fin 0"
proof -
  have h: "total Linux sample_c - total Linux sample_a = 0"
    by (simp add: total_def active_def sample_a_def sample_c_def)
  have "sample_c \<noteq> sample_a" by (simp add: sample_a_def sample_c_def)
  with h calc_cpu_usage_zero_delta[of Linux sample_c sample_a sample_a] show ?thesis by simp
qed

text \<open>
  C5: when the difference of the totals is not 0 and equals the difference of the active
  times, \<open>calc_cpu_usage\<close> returns exactly 100.0.
\<close>

theorem calc_cpu_usage_all_active:
  assumes "total plat cur - total plat prev \<noteq> 0"
    and "active plat cur - active plat prev = total plat cur - total plat prev"
  shows "calc_cpu_usage plat prev cur = Fin 100"
  using assms ratio_full[of "total plat cur - total plat prev"]
  by (simp add: calc_cpu_usage_unfold)

theorem calc_cpu_usage_all_active_witness:
  "total Linux sample_b - total Linux sample_a \<noteq> 0
   \<and> active Linux sample_b - active Linux sample_a = total Linux sample_b - total Linux sample_a
   \<and> calc_cpu_usage Linux sample_a sample_b = Fin 100"
proof -
  have h1: "total Linux sample_b - total Linux sample_a \<noteq> 0"
    by (simp add: total_def active_def sample_a_def sample_b_def)
  have h2: "active Linux sample_b - active Linux sample_a = total Linux sample_b - total Linux sample_a"
    by (simp add: total_def active_def sample_a_def sample_b_def)
  from calc_cpu_usage_all_active[OF h1 h2] h1 h2 show ?thesis by simp
qed

section \<open>Properties of the FreeBSD CPU collector\<close>

lemma zero_cores:
  assumes "len < (40 :: 64 word)"
  shows "nat (sint (ucast (len div 8) :: 32 word) sdiv int CPUSTATES) = 0"
proof -
  define k where "k = uint (len div 8)"
  have "uint len < 40" using assms by (simp add: word_less_def)
  then have "uint len div 8 < 5" by simp
  moreover have "0 \<le> uint len div 8" by (simp add: pos_imp_zdiv_nonneg_iff)
  ultimately have k: "0 \<le> k" "k < 5" unfolding k_def uint_div by simp_all
  have "sint (ucast (len div 8) :: 32 word) = signed_take_bit 31 k"
    by (simp add: signed_ucast_eq k_def)
  also have "\<dots> = k" using k by (intro signed_take_bit_int_eq_self) simp_all
  finally have "sint (ucast (len div 8) :: 32 word) = k" .
  then show ?thesis using k by (simp add: CPUSTATES_def signed_divide_int_def)
qed

text \<open>
  C3, as the code has it: on FreeBSD \<open>get_cpu_times\<close> fails exactly when the first
  \<open>sysctl\<close> call, the allocation or the second \<open>sysctl\<close> call fails. A reply that is shorter
  than the five counters of one core is not an error: the loop does not run and the call
  succeeds with a sample of zeros.
\<close>

theorem get_cpu_times_freebsd_failure:
  "(get_cpu_times_freebsd k = Inl SysctlSizeFailed \<longleftrightarrow> size_query k = None)
   \<and> (get_cpu_times_freebsd k = Inl MallocFailed \<longleftrightarrow> size_query k \<noteq> None \<and> \<not> malloc_ok k)
   \<and> (get_cpu_times_freebsd k = Inl SysctlReadFailed
        \<longleftrightarrow> size_query k \<noteq> None \<and> malloc_ok k \<and> read_query k = None)
   \<and> ((\<exists>t. get_cpu_times_freebsd k = Inr t)
        \<longleftrightarrow> size_query k \<noteq> None \<and> malloc_ok k \<and> read_query k \<noteq> None)
   \<and> (size_query k = Some len \<and> len < 40 \<and> malloc_ok k \<and> read_query k \<noteq> None
        \<longrightarrow> get_cpu_times_freebsd k
              = Inr \<lparr>user = 0, nice = 0, system = 0, idle = 0, intr = 0\<rparr>)"
proof -
  have z: "get_cpu_times_freebsd k = Inr \<lparr>user = 0, nice = 0, system = 0, idle = 0, intr = 0\<rparr>"
    if "size_query k = Some len" "len < 40" "malloc_ok k" "read_query k \<noteq> None"
    using that zero_cores[of len] by (auto simp add: get_cpu_times_freebsd_def Let_def)
  have "(get_cpu_times_freebsd k = Inl SysctlSizeFailed \<longleftrightarrow> size_query k = None)"
    by (auto simp add: get_cpu_times_freebsd_def Let_def split: option.splits)
  moreover have "(get_cpu_times_freebsd k = Inl MallocFailed \<longleftrightarrow> size_query k \<noteq> None \<and> \<not> malloc_ok k)"
    by (auto simp add: get_cpu_times_freebsd_def Let_def split: option.splits)
  moreover have "(get_cpu_times_freebsd k = Inl SysctlReadFailed
        \<longleftrightarrow> size_query k \<noteq> None \<and> malloc_ok k \<and> read_query k = None)"
    by (auto simp add: get_cpu_times_freebsd_def Let_def split: option.splits)
  moreover have "((\<exists>t. get_cpu_times_freebsd k = Inr t)
        \<longleftrightarrow> size_query k \<noteq> None \<and> malloc_ok k \<and> read_query k \<noteq> None)"
    by (auto simp add: get_cpu_times_freebsd_def Let_def split: option.splits)
  ultimately show ?thesis using z by blast
qed

theorem get_cpu_times_freebsd_failure_witness:
  "size_query short_reply = Some 8 \<and> (8 :: 64 word) < 40 \<and> malloc_ok short_reply
   \<and> read_query short_reply \<noteq> None
   \<and> get_cpu_times_freebsd short_reply
       = Inr \<lparr>user = 0, nice = 0, system = 0, idle = 0, intr = 0\<rparr>"
  using get_cpu_times_freebsd_failure[of short_reply 8] by (simp add: short_reply_def)

text \<open>
  C3 as stated fails: when both queries succeed and report an empty array, the call returns
  success with the all-zero sample.
\<close>

theorem get_cpu_times_freebsd_zero_cores_counterexample:
  "size_query no_cores = Some 0 \<and> malloc_ok no_cores \<and> read_query no_cores \<noteq> None
   \<and> get_cpu_times_freebsd no_cores
       = Inr \<lparr>user = 0, nice = 0, system = 0, idle = 0, intr = 0\<rparr>"
  by (simp add: no_cores_def get_cpu_times_freebsd_def CPUSTATES_def signed_divide_int_def)

text \<open>With two cores in the reply, the loop adds the counters of both.\<close>

lemma get_cpu_times_freebsd_two_cores:
  "get_cpu_times_freebsd two_cores
     = Inr \<lparr>user = 7, nice = 9, system = 11, idle = 15, intr = 13\<rparr>"
  by (simp add: two_cores_def get_cpu_times_freebsd_def CPUSTATES_def signed_divide_int_def
      add_core_def upt_rec)

section \<open>Properties of the FreeBSD memory collector\<close>

lemma fdiv_1024:
  assumes "0 \<le> x" "x \<le> y" "y \<le> 2 ^ 64"
  shows "fdiv (Fin x) (Fin 1024) = Fin (round_binary64 (x / 1024))"
    and "0 \<le> round_binary64 (x / 1024)"
    and "round_binary64 (x / 1024) \<le> round_binary64 (y / 1024)"
    and "round_binary64 (y / 1024) \<le> 2 ^ 64"
proof -
  have x0: "0 \<le> x / 1024" using assms(1) by simp
  have xy: "x / 1024 \<le> y / 1024" using assms(2) by simp
  have y0: "0 \<le> y / 1024" using x0 xy by simp
  have yb: "y / 1024 \<le> 2 ^ 64" using assms(3) y0 by simp
  have xb: "x / 1024 \<le> 2 ^ 64" using xy yb by simp
  note X = to_double_bounded[OF x0 xb round_binary64_2_64]
  note Y = to_double_bounded[OF y0 yb round_binary64_2_64]
  show "fdiv (Fin x) (Fin 1024) = Fin (round_binary64 (x / 1024))" using X(1) by simp
  show "0 \<le> round_binary64 (x / 1024)" using X(2) by simp
  show "round_binary64 (x / 1024) \<le> round_binary64 (y / 1024)"
    using x0 xy by (rule round_binary64_mono)
  show "round_binary64 (y / 1024) \<le> 2 ^ 64" using Y(3) by simp
qed

lemma gigabytes_mono:
  assumes "x \<le> (y :: 64 word)"
  shows "\<exists>a b. fdiv (fdiv (fdiv (double_of_u64 x) (Fin 1024)) (Fin 1024)) (Fin 1024) = Fin a
          \<and> fdiv (fdiv (fdiv (double_of_u64 y) (Fin 1024)) (Fin 1024)) (Fin 1024) = Fin b
          \<and> 0 \<le> a \<and> a \<le> b"
proof -
  define x0 where "x0 = round_binary64 (unsigned x)"
  define y0 where "y0 = round_binary64 (unsigned y)"
  have a0: "0 \<le> x0" unfolding x0_def using u64_rat_bounds(1) by (rule round_binary64_nonneg)
  have a1: "x0 \<le> y0" unfolding x0_def y0_def
    using u64_rat_bounds(1) u64_rat_mono[OF assms] by (rule round_binary64_mono)
  have a2: "y0 \<le> 2 ^ 64" unfolding y0_def
    using to_double_bounded(3)[OF u64_rat_bounds round_binary64_2_64] by simp
  note s1 = fdiv_1024[OF a0 a1 a2]
  note t1 = fdiv_1024(1)[OF order_trans[OF a0 a1] order_refl a2]
  note s2 = fdiv_1024[OF s1(2) s1(3) s1(4)]
  note t2 = fdiv_1024(1)[OF order_trans[OF s1(2) s1(3)] order_refl s1(4)]
  note s3 = fdiv_1024[OF s2(2) s2(3) s2(4)]
  note t3 = fdiv_1024(1)[OF order_trans[OF s2(2) s2(3)] order_refl s2(4)]
  have "fdiv (fdiv (fdiv (double_of_u64 x) (Fin 1024)) (Fin 1024)) (Fin 1024)
          = Fin (round_binary64 (round_binary64 (round_binary64 (x0 / 1024) / 1024) / 1024))"
    by (simp only: double_of_u64_Fin x0_def[symmetric] s1(1) s2(1) s3(1))
  moreover have "fdiv (fdiv (fdiv (double_of_u64 y) (Fin 1024)) (Fin 1024)) (Fin 1024)
          = Fin (round_binary64 (round_binary64 (round_binary64 (y0 / 1024) / 1024) / 1024))"
    by (simp only: double_of_u64_Fin y0_def[symmetric] t1 t2 t3)
  ultimately show ?thesis using s3(2) s3(3) by blast
qed

lemma used_mem_freebsd_le: "used_mem_freebsd t p f \<le> t"
  by (simp add: used_mem_freebsd_def Let_def word_sub_le)

lemma used_mem_freebsd_uint:
  "uint (used_mem_freebsd t p f) = max 0 (uint t - uint (f * p))"
proof (cases "f * p < t")
  case True
  then have lt: "uint (f * p) < uint t" by (simp add: word_less_def)
  then have "uint (t - f * p) = uint t - uint (f * p)" by (simp add: uint_sub_lem[THEN iffD1])
  then show ?thesis using True lt by (simp add: used_mem_freebsd_def Let_def)
next
  case False
  then have "uint t \<le> uint (f * p)" by (simp add: word_less_def)
  then show ?thesis using False by (simp add: used_mem_freebsd_def Let_def)
qed

text \<open>
  C8, as the code has it: on FreeBSD the used memory is never above the total, and it is
  \<open>max(0, total - free_mem)\<close> where \<open>free_mem\<close> is the product of the free-page count and the
  page size in \<open>unsigned long\<close> arithmetic; this is the exact product whenever that is below
  \<open>2\<^sup>6\<^sup>4\<close>. On every successful return the used gigabytes are at most the total gigabytes.
\<close>

theorem used_mem_freebsd_clamped:
  "used_mem_freebsd t p f \<le> t
   \<and> uint (used_mem_freebsd t p f) = max 0 (uint t - uint (f * p))
   \<and> (uint f * uint p < 2 ^ 64 \<longrightarrow>
        uint (used_mem_freebsd t p f) = max 0 (uint t - uint f * uint p))
   \<and> (get_memory_usage_freebsd q = Inr u \<longrightarrow>
        (\<exists>a b. used_gb u = Fin a \<and> total_gb u = Fin b \<and> 0 \<le> a \<and> a \<le> b))"
proof -
  have m: "uint (used_mem_freebsd t p f) = max 0 (uint t - uint f * uint p)"
    if "uint f * uint p < 2 ^ 64"
  proof -
    have "uint (f * p) = uint f * uint p" using that by (simp add: uint_mult_lem[THEN iffD1])
    then show ?thesis by (simp add: used_mem_freebsd_uint)
  qed
  have g: "\<exists>a b. used_gb u = Fin a \<and> total_gb u = Fin b \<and> 0 \<le> a \<and> a \<le> b"
    if "get_memory_usage_freebsd q = Inr u"
  proof -
    from that obtain total_mem free_pages where
      u: "used_gb u = fdiv (fdiv (fdiv (double_of_u64
               (used_mem_freebsd total_mem (sc_pagesize q) free_pages)) (Fin 1024)) (Fin 1024)) (Fin 1024)"
         "total_gb u = fdiv (fdiv (fdiv (double_of_u64 total_mem) (Fin 1024)) (Fin 1024)) (Fin 1024)"
      by (auto simp add: get_memory_usage_freebsd_def Let_def split: option.splits if_splits)
    from gigabytes_mono[OF used_mem_freebsd_le[of total_mem "sc_pagesize q" free_pages]]
    show ?thesis by (simp only: u)
  qed
  from m g show ?thesis by (simp add: used_mem_freebsd_le used_mem_freebsd_uint)
qed

theorem used_mem_freebsd_clamped_witness:
  "uint (1048576 :: 64 word) * uint (4096 :: 64 word) < 2 ^ 64
   \<and> uint (used_mem_freebsd 8589934592 4096 1048576) = 4294967296
   \<and> (\<exists>u a b. get_memory_usage_freebsd vm_sample = Inr u
         \<and> used_gb u = Fin a \<and> total_gb u = Fin b \<and> 0 \<le> a \<and> a \<le> b)"
proof -
  have h: "uint (1048576 :: 64 word) * uint (4096 :: 64 word) < 2 ^ 64" by simp
  have "\<exists>u. get_memory_usage_freebsd vm_sample = Inr u"
    by (simp add: get_memory_usage_freebsd_def vm_sample_def Let_def)
  then obtain u where u: "get_memory_usage_freebsd vm_sample = Inr u" ..
  from used_mem_freebsd_clamped[of 8589934592 4096 1048576 vm_sample u] h u
  show ?thesis by simp
qed

text \<open>
  C8 as stated fails when the product wraps around: with 8 GiB of memory, pages of 4096
  bytes and \<open>2\<^sup>5\<^sup>2\<close> free pages, \<open>free_mem\<close> is 0 and the used memory is the whole 8 GiB,
  where \<open>max(0, total - freePages * pageSize)\<close> is 0.
\<close>

theorem used_mem_freebsd_overflow_counterexample:
  "uint (used_mem_freebsd 8589934592 4096 4503599627370496) = 8589934592
   \<and> max 0 (uint (8589934592 :: 64 word)
             - uint (4503599627370496 :: 64 word) * uint (4096 :: 64 word)) = 0"
  by (simp add: used_mem_freebsd_def)

section \<open>Properties of the Linux CPU collector\<close>

lemmas scan_eval = sscanf_def c_str_def conv_u64_def isdigit_def isspace_def strtoull_value_def
  digits_value_def EOF_def

lemma parse_format_cpu:
  "parse_format ''cpu  %llu %llu %llu %llu''
     = [Lit CHR ''c'', Lit CHR ''p'', Lit CHR ''u'', Space, Space,
        ConvU, Space, ConvU, Space, ConvU, Space, ConvU]"
  by (simp add: isspace_def)

lemma conv_u64_Nil: "conv_u64 [] = None"
  by (simp add: conv_u64_def)

lemma fst_scan_ConvU:
  "fst (scan (ConvU # ds) s) =
     (case conv_u64 (dropWhile isspace s) of
        None \<Rightarrow> []
      | Some (v, rest) \<Rightarrow> v # fst (scan ds rest))"
proof (cases "dropWhile isspace s = []")
  case True
  then show ?thesis by (simp add: conv_u64_Nil del: dropWhile_eq_Nil_conv)
next
  case False
  then show ?thesis by (simp del: dropWhile_eq_Nil_conv split: option.splits prod.splits)
qed

lemma extract_uints_numeral:
  "extract_uints (numeral k) s =
     (case conv_u64 (dropWhile isspace s) of
        None \<Rightarrow> []
      | Some (v, rest) \<Rightarrow> v # extract_uints (pred_numeral k) rest)"
  by (simp add: numeral_eq_Suc)

lemma extract_uints_1:
  "extract_uints 1 s =
     (case conv_u64 (dropWhile isspace s) of None \<Rightarrow> [] | Some (v, rest) \<Rightarrow> [v])"
  by (simp split: option.splits)

lemma fst_scan_Space: "fst (scan (Space # ds) s) = fst (scan ds (dropWhile isspace s))"
  by simp

lemma fst_scan_cpu:
  "fst (scan (Lit CHR ''c'' # Lit CHR ''p'' # Lit CHR ''u'' # ds) s)
     = (if take 3 s = ''cpu'' then fst (scan ds (drop 3 s)) else [])"
  by (auto simp add: numeral_3_eq_3 split: list.splits)

lemma fst_scan_fields:
  "fst (scan [Space, Space, ConvU, Space, ConvU, Space, ConvU, Space, ConvU] s)
     = extract_uints 4 s"
  by (simp add: fst_scan_ConvU extract_uints_numeral extract_uints_1 del: scan.simps(4)
      split: option.splits)

lemma take_extract_uints: "m \<le> n \<Longrightarrow> take m (extract_uints n s) = extract_uints m s"
proof (induction m arbitrary: n s)
  case 0
  then show ?case by simp
next
  case (Suc m)
  then obtain k where n: "n = Suc k" and "m \<le> k" by (cases n) simp_all
  with Suc.IH show ?case by (simp split: option.splits)
qed

lemma length_extract_uints: "length (extract_uints n s) \<le> n"
  by (induction n arbitrary: s) (auto split: option.splits)

lemma sscanf_cpu:
  "snd (sscanf buf ''cpu  %llu %llu %llu %llu'') = uints_after_cpu 4 buf"
  "fst (sscanf buf ''cpu  %llu %llu %llu %llu'') < 4 \<longleftrightarrow> length (uints_after_cpu 4 buf) < 4"
proof -
  obtain vs e where se: "scan (parse_format ''cpu  %llu %llu %llu %llu'') (c_str buf) = (vs, e)"
    by (cases "scan (parse_format ''cpu  %llu %llu %llu %llu'') (c_str buf)")
  have "vs = fst (scan (parse_format ''cpu  %llu %llu %llu %llu'') (c_str buf))"
    by (simp only: se fst_conv)
  also have "\<dots> = uints_after_cpu 4 buf"
    by (simp only: parse_format_cpu fst_scan_cpu fst_scan_fields uints_after_cpu_def)
  finally have vs: "vs = uints_after_cpu 4 buf" .
  have sc: "sscanf buf ''cpu  %llu %llu %llu %llu''
              = (if vs = [] \<and> e = InputFailure then EOF else int (length vs), vs)"
    by (simp only: sscanf_def se prod.case)
  show "snd (sscanf buf ''cpu  %llu %llu %llu %llu'') = uints_after_cpu 4 buf"
    by (simp only: sc snd_conv vs)
  show "fst (sscanf buf ''cpu  %llu %llu %llu %llu'') < 4 \<longleftrightarrow> length (uints_after_cpu 4 buf) < 4"
    unfolding sc fst_conv vs[symmetric] by (simp add: EOF_def)
qed

lemma uints_after_cpu_take: "4 \<le> n \<Longrightarrow> uints_after_cpu 4 buf = take 4 (uints_after_cpu n buf)"
  by (simp add: uints_after_cpu_def take_extract_uints)

lemma get_cpu_times_linux_missing_idle:
  "get_cpu_times_linux (Some ''cpu  4705 150 1120\<newline>'') = Inl ParseFailed"
proof -
  have "fgets 256 ''cpu  4705 150 1120\<newline>'' = Some (''cpu  4705 150 1120\<newline>'', [])"
    by code_simp
  moreover have "sscanf ''cpu  4705 150 1120\<newline>'' ''cpu  %llu %llu %llu %llu'' = (3, [4705, 150, 1120])"
    by (simp add: scan_eval)
  ultimately show ?thesis by (simp add: get_cpu_times_linux_def)
qed

lemma get_cpu_times_linux_buffer:
  assumes "fgets 256 fp = Some (buf, rest)" and "4 \<le> n"
  shows "(get_cpu_times_linux (Some fp) = Inl ParseFailed \<longleftrightarrow> length (uints_after_cpu n buf) < 4)
    \<and> (4 \<le> length (uints_after_cpu n buf) \<longrightarrow>
         get_cpu_times_linux (Some fp)
           = Inr \<lparr>user = uints_after_cpu n buf ! 0, nice = uints_after_cpu n buf ! 1,
                  system = uints_after_cpu n buf ! 2, idle = uints_after_cpu n buf ! 3,
                  intr = 0\<rparr>)"
proof -
  obtain ret vs where sc: "sscanf buf ''cpu  %llu %llu %llu %llu'' = (ret, vs)"
    by (cases "sscanf buf ''cpu  %llu %llu %llu %llu''")
  from sscanf_cpu[of buf] have vs: "vs = uints_after_cpu 4 buf"
    and ret: "ret < 4 \<longleftrightarrow> length (uints_after_cpu 4 buf) < 4"
    by (simp_all add: sc)
  have t: "uints_after_cpu 4 buf = take 4 (uints_after_cpu n buf)"
    using assms(2) by (rule uints_after_cpu_take)
  have len: "length (uints_after_cpu 4 buf) < 4 \<longleftrightarrow> length (uints_after_cpu n buf) < 4"
    by (auto simp add: t)
  have g: "get_cpu_times_linux (Some fp) =
      (if ret < 4 then Inl ParseFailed
       else Inr \<lparr>user = vs ! 0, nice = vs ! 1, system = vs ! 2, idle = vs ! 3, intr = 0\<rparr>)"
    by (simp add: get_cpu_times_linux_def assms(1) sc)
  have a: "get_cpu_times_linux (Some fp) = Inl ParseFailed \<longleftrightarrow> length (uints_after_cpu n buf) < 4"
    by (simp add: g ret len)
  have b: "get_cpu_times_linux (Some fp)
           = Inr \<lparr>user = uints_after_cpu n buf ! 0, nice = uints_after_cpu n buf ! 1,
                  system = uints_after_cpu n buf ! 2, idle = uints_after_cpu n buf ! 3,
                  intr = 0\<rparr>" if "4 \<le> length (uints_after_cpu n buf)"
    using that by (simp add: g ret len vs t)
  from a b show ?thesis by blast
qed

lemma fgets_take_first_line:
  "length (first_line s) \<le> n \<Longrightarrow> fgets_take n s = (first_line s, drop (length (first_line s)) s)"
proof (induction n s rule: fgets_take.induct)
  case (1 s)
  then show ?case by (cases s) (simp_all split: if_splits)
next
  case (2 n)
  show ?case by simp
next
  case (3 n c s)
  then show ?case by (simp split: if_splits)
qed

lemma fgets_first_line:
  assumes "fp \<noteq> []" and "length (first_line fp) \<le> 255"
  shows "fgets 256 fp = Some (first_line fp, drop (length (first_line fp)) fp)"
  using assms by (simp add: fgets_def fgets_take_first_line)

lemma no_sign_take: "c \<notin> set t \<Longrightarrow> take 1 t \<noteq> [c]"
  by (cases t) auto

lemma conv_u64_unsigned:
  assumes "CHR ''-'' \<notin> set t" and "CHR ''+'' \<notin> set t"
  shows "conv_u64 t =
           (if takeWhile isdigit t = [] then None
            else Some (u64_sat (digits_value (takeWhile isdigit t)), dropWhile isdigit t))"
  using no_sign_take[OF assms(1)] no_sign_take[OF assms(2)]
  by (simp add: conv_u64_def strtoull_value_def u64_sat_def Let_def)

lemma extract_uints_spec:
  assumes "CHR ''-'' \<notin> set s" and "CHR ''+'' \<notin> set s"
  shows "extract_uints n s = map u64_sat (spec_uints n s)"
  using assms
proof (induction n arbitrary: s)
  case 0
  show ?case by simp
next
  case (Suc n)
  define t where "t = dropWhile isspace s"
  have t: "CHR ''-'' \<notin> set t" "CHR ''+'' \<notin> set t"
    using Suc.prems set_dropWhileD[of _ isspace s] unfolding t_def by blast+
  have r: "CHR ''-'' \<notin> set (dropWhile isdigit t)" "CHR ''+'' \<notin> set (dropWhile isdigit t)"
    using t set_dropWhileD[of _ isdigit t] by blast+
  show ?case
    using Suc.IH[OF r]
    by (simp add: conv_u64_unsigned[OF t] spec_uint_def t_def[symmetric] Let_def)
qed

lemma uints_after_cpu_spec:
  assumes "CHR 0x00 \<notin> set line" and "CHR ''-'' \<notin> set line" and "CHR ''+'' \<notin> set line"
  shows "uints_after_cpu n line = map u64_sat (cpu_line_uints n line)"
proof -
  have c: "c_str line = line" using assms(1) by (auto simp add: c_str_def takeWhile_eq_all_conv)
  have d: "CHR ''-'' \<notin> set (drop 3 line)" "CHR ''+'' \<notin> set (drop 3 line)"
    using assms(2,3) in_set_dropD[of _ 3 line] by blast+
  show ?thesis
    by (simp add: uints_after_cpu_def cpu_line_uints_def c extract_uints_spec[OF d])
qed

text \<open>
  C6, as the code has it: when the aggregate CPU line, with its newline, has at most 255
  characters and holds no NUL and no sign character, the Linux \<open>get_cpu_times\<close> fails with
  the parse diagnostic exactly when fewer than four unsigned integers can be extracted
  after the prefix \<open>cpu\<close>; otherwise it succeeds and stores the first four as user, nice,
  system and idle, a value that does not fit 64 bits as \<open>2\<^sup>6\<^sup>4 - 1\<close>. A line without the idle
  field fails.
\<close>

theorem get_cpu_times_linux_parse:
  assumes "fp \<noteq> []" and "length (first_line fp) \<le> 255"
    and "CHR 0x00 \<notin> set (first_line fp)"
    and "CHR ''-'' \<notin> set (first_line fp)" and "CHR ''+'' \<notin> set (first_line fp)"
    and "4 \<le> n"
  shows "(get_cpu_times_linux (Some fp) = Inl ParseFailed
            \<longleftrightarrow> length (cpu_line_uints n (first_line fp)) < 4)
    \<and> (4 \<le> length (cpu_line_uints n (first_line fp)) \<longrightarrow>
         get_cpu_times_linux (Some fp)
           = Inr \<lparr>user = u64_sat (cpu_line_uints n (first_line fp) ! 0),
                  nice = u64_sat (cpu_line_uints n (first_line fp) ! 1),
                  system = u64_sat (cpu_line_uints n (first_line fp) ! 2),
                  idle = u64_sat (cpu_line_uints n (first_line fp) ! 3),
                  intr = 0\<rparr>)
    \<and> get_cpu_times_linux (Some ''cpu  4705 150 1120\<newline>'') = Inl ParseFailed"
proof -
  note b = get_cpu_times_linux_buffer[OF fgets_first_line[OF assms(1,2)] assms(6)]
  note u = uints_after_cpu_spec[OF assms(3,4,5), of n]
  have z: "map u64_sat (cpu_line_uints n (first_line fp)) ! 0
             = u64_sat (cpu_line_uints n (first_line fp) ! 0)"
    if "4 \<le> length (cpu_line_uints n (first_line fp))"
    using that by (intro nth_map) auto
  from b get_cpu_times_linux_missing_idle z show ?thesis by (simp add: u)
qed

theorem get_cpu_times_linux_parse_witness:
  "stat_sample \<noteq> [] \<and> length (first_line stat_sample) \<le> 255
   \<and> CHR 0x00 \<notin> set (first_line stat_sample)
   \<and> CHR ''-'' \<notin> set (first_line stat_sample) \<and> CHR ''+'' \<notin> set (first_line stat_sample)
   \<and> (4 :: nat) \<le> 7
   \<and> cpu_line_uints 7 (first_line stat_sample) = [4705, 150, 1120, 16250, 520, 0, 17]
   \<and> get_cpu_times_linux (Some stat_sample)
       = Inr \<lparr>user = 4705, nice = 150, system = 1120, idle = 16250, intr = 0\<rparr>"
proof -
  have h1: "stat_sample \<noteq> []" unfolding stat_sample_def by simp
  have h2: "length (first_line stat_sample) \<le> 255" unfolding stat_sample_def by code_simp
  have h3: "CHR 0x00 \<notin> set (first_line stat_sample)" unfolding stat_sample_def by code_simp
  have h4: "CHR ''-'' \<notin> set (first_line stat_sample)" unfolding stat_sample_def by code_simp
  have h5: "CHR ''+'' \<notin> set (first_line stat_sample)" unfolding stat_sample_def by code_simp
  have h6: "(4 :: nat) \<le> 7" by simp
  have u: "cpu_line_uints 7 (first_line stat_sample) = [4705, 150, 1120, 16250, 520, 0, 17]"
    unfolding stat_sample_def by code_simp
  from get_cpu_times_linux_parse[OF h1 h2 h3 h4 h5 h6] h1 h2 h3 h4 h5 u
  show ?thesis by (simp add: u64_sat_def)
qed

text \<open>
  C6 as stated fails on a line of more than 255 characters: \<open>fgets\<close> cuts it, and of the
  fields 1, 2, 3 and 45 the idle counter is stored as 4. It also fails on a signed field:
  \<open>%llu\<close> reads \<open>-1\<close> as \<open>2\<^sup>6\<^sup>4 - 1\<close>, where the line holds no unsigned integer after the
  prefix.
\<close>

theorem get_cpu_times_linux_parse_counterexample:
  "length (first_line long_stat_line) = 257
   \<and> cpu_line_uints 4 (first_line long_stat_line) = [1, 2, 3, 45]
   \<and> get_cpu_times_linux (Some long_stat_line)
       = Inr \<lparr>user = 1, nice = 2, system = 3, idle = 4, intr = 0\<rparr>
   \<and> cpu_line_uints 4 (first_line signed_stat_line) = []
   \<and> get_cpu_times_linux (Some signed_stat_line)
       = Inr \<lparr>user = 18446744073709551615, nice = 2, system = 3, idle = 4, intr = 0\<rparr>"
proof -
  define B where "B = ''cpu'' @ replicate 245 (CHR '' '') @ ''1 2 3 4''"
  have l: "length (first_line long_stat_line) = 257" unfolding long_stat_line_def by code_simp
  have s: "cpu_line_uints 4 (first_line long_stat_line) = [1, 2, 3, 45]"
    unfolding long_stat_line_def by code_simp
  have f: "fgets 256 long_stat_line = Some (B, ''5\<newline>'')"
    unfolding long_stat_line_def B_def by code_simp
  have n: "CHR 0x00 \<notin> set B" "CHR ''-'' \<notin> set B" "CHR ''+'' \<notin> set B"
    unfolding B_def by code_simp+
  have c: "cpu_line_uints 4 B = [1, 2, 3, 4]" unfolding B_def by code_simp
  have u: "uints_after_cpu 4 B = [1, 2, 3, 4]"
    by (simp add: uints_after_cpu_spec[OF n] c u64_sat_def)
  from get_cpu_times_linux_buffer[OF f, of 4]
  have g: "get_cpu_times_linux (Some long_stat_line)
             = Inr \<lparr>user = 1, nice = 2, system = 3, idle = 4, intr = 0\<rparr>"
    by (simp add: u)
  have s2: "cpu_line_uints 4 (first_line signed_stat_line) = []"
    unfolding signed_stat_line_def by code_simp
  have f2: "fgets 256 signed_stat_line = Some (signed_stat_line, [])"
    unfolding signed_stat_line_def by code_simp
  have "sscanf signed_stat_line ''cpu  %llu %llu %llu %llu''
          = (4, [18446744073709551615, 2, 3, 4])"
    by (simp add: signed_stat_line_def scan_eval)
  with f2 have g2: "get_cpu_times_linux (Some signed_stat_line)
       = Inr \<lparr>user = 18446744073709551615, nice = 2, system = 3, idle = 4, intr = 0\<rparr>"
    by (simp add: get_cpu_times_linux_def)
  from l s g s2 g2 show ?thesis by simp
qed

section \<open>Properties of the Linux memory collector\<close>

lemma meminfo_step_pair:
  "meminfo_step (mem_total, mem_available) line =
     (case sscanf line ''MemTotal: %lu kB'' of
        (r, vs) \<Rightarrow>
          if r = 1 then (hd vs, mem_available)
          else (case sscanf line ''MemAvailable: %lu kB'' of
                  (r', vs') \<Rightarrow>
                    if r' = 1 then (mem_total, hd vs')
                    else (mem_total, mem_available)))"
  by (simp add: meminfo_step_def)

lemma meminfo_loop_buffers:
  "meminfo_loop fp mem_total mem_available
     = foldl meminfo_step (mem_total, mem_available) (buffers fp)"
proof (induction fp mem_total mem_available rule: meminfo_loop.induct)
  case (1 fp mem_total mem_available)
  show ?case
  proof (cases "fgets 256 fp")
    case None
    then show ?thesis
      by (subst meminfo_loop.simps, subst buffers.simps) simp
  next
    case (Some x)
    obtain line fp' where x: "x = (line, fp')" by (cases x)
    obtain r vs where t: "sscanf line ''MemTotal: %lu kB'' = (r, vs)"
      by (cases "sscanf line ''MemTotal: %lu kB''")
    obtain r' vs' where a: "sscanf line ''MemAvailable: %lu kB'' = (r', vs')"
      by (cases "sscanf line ''MemAvailable: %lu kB''")
    have b: "buffers fp = line # buffers fp'"
      by (subst buffers.simps) (simp add: Some x)
    show ?thesis
    proof (cases "r = 1")
      case True
      have "meminfo_loop fp mem_total mem_available = meminfo_loop fp' (hd vs) mem_available"
        by (subst meminfo_loop.simps) (simp add: Some x t True)
      also have "\<dots> = foldl meminfo_step (hd vs, mem_available) (buffers fp')"
        using "1.IH"(1)[OF Some x[symmetric] t[symmetric] True] .
      finally show ?thesis by (simp add: b meminfo_step_pair t True)
    next
      case False
      show ?thesis
      proof (cases "r' = 1")
        case True
        have "meminfo_loop fp mem_total mem_available = meminfo_loop fp' mem_total (hd vs')"
          by (subst meminfo_loop.simps) (simp add: Some x t a False True)
        also have "\<dots> = foldl meminfo_step (mem_total, hd vs') (buffers fp')"
          using "1.IH"(2)[OF Some x[symmetric] t[symmetric] False a[symmetric] True] .
        finally show ?thesis by (simp add: b meminfo_step_pair t a False True)
      next
        case F2: False
        have "meminfo_loop fp mem_total mem_available = meminfo_loop fp' mem_total mem_available"
          by (subst meminfo_loop.simps) (simp add: Some x t a False F2)
        also have "\<dots> = foldl meminfo_step (mem_total, mem_available) (buffers fp')"
          using "1.IH"(3)[OF Some x[symmetric] t[symmetric] False a[symmetric] F2] .
        finally show ?thesis by (simp add: b meminfo_step_pair t a False F2)
      qed
    qed
  qed
qed

lemma foldl_keeps_available:
  assumes "\<forall>l \<in> set ls. fst (sscanf l ''MemAvailable: %lu kB'') \<noteq> 1"
  shows "snd (foldl meminfo_step (mt, ma) ls) = ma"
  using assms
proof (induction ls arbitrary: mt)
  case Nil
  show ?case by simp
next
  case (Cons l ls)
  then have "fst (sscanf l ''MemAvailable: %lu kB'') \<noteq> 1" by simp
  then have "\<exists>mt'. meminfo_step (mt, ma) l = (mt', ma)"
    by (auto simp add: meminfo_step_pair split: prod.splits)
  then obtain mt' where "meminfo_step (mt, ma) l = (mt', ma)" ..
  with Cons show ?case by simp
qed

lemma foldl_keeps_total:
  assumes "\<forall>l \<in> set ls. fst (sscanf l ''MemTotal: %lu kB'') \<noteq> 1"
  shows "fst (foldl meminfo_step (mt, ma) ls) = mt"
  using assms
proof (induction ls arbitrary: ma)
  case Nil
  show ?case by simp
next
  case (Cons l ls)
  then have "fst (sscanf l ''MemTotal: %lu kB'') \<noteq> 1" by simp
  then have "\<exists>ma'. meminfo_step (mt, ma) l = (mt, ma')"
    by (auto simp add: meminfo_step_pair split: prod.splits)
  then obtain ma' where "meminfo_step (mt, ma) l = (mt, ma')" ..
  with Cons show ?case by simp
qed

lemma meminfo_loop_no_available:
  assumes "\<forall>l \<in> set (buffers fp). fst (sscanf l ''MemAvailable: %lu kB'') \<noteq> 1"
    and "buffers fp = pre @ b # post"
    and "sscanf b ''MemTotal: %lu kB'' = (1, [v])"
    and "\<forall>l \<in> set post. fst (sscanf l ''MemTotal: %lu kB'') \<noteq> 1"
  shows "meminfo_loop fp 0 0 = (v, 0)"
proof -
  have s: "snd (foldl meminfo_step (0, 0) (buffers fp)) = 0"
    using assms(1) by (rule foldl_keeps_available)
  obtain m a where p: "foldl meminfo_step (0, 0) pre = (m, a)"
    by (cases "foldl meminfo_step (0, 0) pre")
  have "\<exists>a'. meminfo_step (m, a) b = (v, a')"
    by (simp add: meminfo_step_pair assms(3))
  then obtain a' where q: "meminfo_step (m, a) b = (v, a')" ..
  have "fst (foldl meminfo_step (0, 0) (buffers fp)) = fst (foldl meminfo_step (v, a') post)"
    by (simp add: assms(2) p q)
  also have "\<dots> = v" using assms(4) by (rule foldl_keeps_total)
  finally have "fst (foldl meminfo_step (0, 0) (buffers fp)) = v" .
  with s show ?thesis by (simp add: meminfo_loop_buffers prod_eq_iff)
qed

lemma buffers_no_available:
  "buffers meminfo_no_available
     = [] @ ''MemTotal:        2048000 kB\<newline>'' # [''MemFree:          512000 kB\<newline>'']"
  unfolding meminfo_no_available_def by code_simp

lemma buffers_fixture:
  "buffers meminfo_fixture
     = [''MemTotal:       24670208 kB\<newline>'', ''MemFree:        22145984 kB\<newline>'',
        ''MemAvailable:   23488000 kB\<newline>'']"
  unfolding meminfo_fixture_def by code_simp

lemma round_fixture:
  "round_binary64 24670208 = 24670208"
  "round_binary64 (24670208 / 1024) = 24092"
  "round_binary64 (24092 / 1024) = 6023 / 256"
  "round_binary64 1182208 = 1182208"
  "round_binary64 (1182208 / 1024) = 2309 / 2"
  "round_binary64 (2309 / 2 / 1024) = 2309 / 2048"
  "round_binary64 (1182208 / 24670208) = 3453033883313457 / 72057594037927936"
  "round_binary64 (3453033883313457 / 72057594037927936 * 100)
     = 5395365442677277 / 1125899906842624"
  by code_simp+

lemma fdiv_exact:
  assumes "round_binary64 (a / b) = r" and "b \<noteq> 0" and "0 \<le> a / b" and "a / b \<le> 2 ^ 64"
  shows "fdiv (Fin a) (Fin b) = Fin r"
proof -
  have "(2::rat) ^ 64 < 2 ^ 1024" by (rule power_strict_increasing) simp_all
  from to_double_bounded(1)[OF assms(3,4) round_binary64_2_64 this] assms(1,2)
  show ?thesis by simp
qed

lemma fmul_exact:
  assumes "round_binary64 (a * b) = r" and "0 \<le> a * b" and "a * b \<le> 2 ^ 64"
  shows "fmul (Fin a) (Fin b) = Fin r"
proof -
  have "(2::rat) ^ 64 < 2 ^ 1024" by (rule power_strict_increasing) simp_all
  from to_double_bounded(1)[OF assms(2,3) round_binary64_2_64 this] assms(1)
  show ?thesis by simp
qed

text \<open>
  C7: for the table with \<open>MemTotal\<close> 24670208 kB and \<open>MemAvailable\<close> 23488000 kB the Linux
  \<open>get_memory_usage\<close> succeeds with a total of 23.52734375 GB, 1.12744140625 GB used and
  4.79204715... percent used: each within 0.01 of 23.52, 1.13 and 4.79.
\<close>

theorem get_memory_usage_linux_fixture:
  "get_memory_usage_linux (Some meminfo_fixture)
     = Inr \<lparr>used_gb = Fin (2309 / 2048), total_gb = Fin (6023 / 256),
            percent_used = Fin (5395365442677277 / 1125899906842624)\<rparr>
   \<and> \<bar>6023 / 256 - 23.52 :: rat\<bar> < 0.01
   \<and> \<bar>2309 / 2048 - 1.13 :: rat\<bar> < 0.01
   \<and> \<bar>5395365442677277 / 1125899906842624 - 4.79 :: rat\<bar> < 0.01"
proof -
  have loop: "meminfo_loop meminfo_fixture 0 0 = (24670208, 23488000)"
    by (simp add: meminfo_loop_buffers buffers_fixture meminfo_step_pair scan_eval)
  have d1: "double_of_u64 24670208 = Fin 24670208"
    by (simp add: double_of_u64_Fin round_fixture(1))
  have d2: "double_of_u64 1182208 = Fin 1182208"
    by (simp add: double_of_u64_Fin round_fixture(4))
  have t1: "fdiv (Fin 24670208) (Fin 1024) = Fin 24092"
    by (rule fdiv_exact[OF round_fixture(2)]) simp_all
  have t2: "fdiv (Fin 24092) (Fin 1024) = Fin (6023 / 256)"
    by (rule fdiv_exact[OF round_fixture(3)]) simp_all
  have u1: "fdiv (Fin 1182208) (Fin 1024) = Fin (2309 / 2)"
    by (rule fdiv_exact[OF round_fixture(5)]) simp_all
  have u2: "fdiv (Fin (2309 / 2)) (Fin 1024) = Fin (2309 / 2048)"
    by (rule fdiv_exact[OF round_fixture(6)]) simp_all
  have q: "fdiv (Fin 1182208) (Fin 24670208) = Fin (3453033883313457 / 72057594037927936)"
    by (rule fdiv_exact[OF round_fixture(7)]) simp_all
  have p: "fmul (Fin (3453033883313457 / 72057594037927936)) (Fin 100)
             = Fin (5395365442677277 / 1125899906842624)"
    by (rule fmul_exact[OF round_fixture(8)]) simp_all
  have total: "fdiv (fdiv (double_of_u64 24670208) (Fin 1024)) (Fin 1024) = Fin (6023 / 256)"
    by (simp only: d1 t1 t2)
  have used: "fdiv (fdiv (double_of_u64 1182208) (Fin 1024)) (Fin 1024) = Fin (2309 / 2048)"
    by (simp only: d2 u1 u2)
  have pct: "fmul (fdiv (double_of_u64 1182208) (double_of_u64 24670208)) (Fin 100)
               = Fin (5395365442677277 / 1125899906842624)"
    by (simp only: d1 d2 q p)
  have sub: "(24670208 :: 64 word) - 23488000 = 1182208" by simp
  have nz: "(24670208 :: 64 word) \<noteq> 0" by simp
  have "get_memory_usage_linux (Some meminfo_fixture)
     = Inr \<lparr>used_gb = Fin (2309 / 2048), total_gb = Fin (6023 / 256),
            percent_used = Fin (5395365442677277 / 1125899906842624)\<rparr>"
    unfolding get_memory_usage_linux_def option.case loop prod.case Let_def sub total used pct
    using nz by (simp only: if_False)
  then show ?thesis by simp
qed

text \<open>
  C10, as the code has it: when none of the pieces that \<open>fgets\<close> reads from the table (the
  lines, a line of more than 255 characters in several pieces) converts as \<open>MemAvailable\<close>
  and the last piece that converts as \<open>MemTotal\<close> carries a value other than 0, the Linux
  \<open>get_memory_usage\<close> succeeds, the used memory equals the total and the percentage is 100.
\<close>

theorem get_memory_usage_linux_no_available:
  assumes "\<forall>l \<in> set (buffers fp). fst (sscanf l ''MemAvailable: %lu kB'') \<noteq> 1"
    and "buffers fp = pre @ b # post"
    and "sscanf b ''MemTotal: %lu kB'' = (1, [v])"
    and "v \<noteq> 0"
    and "\<forall>l \<in> set post. fst (sscanf l ''MemTotal: %lu kB'') \<noteq> 1"
  shows "get_memory_usage_linux (Some fp)
           = Inr \<lparr>used_gb = fdiv (fdiv (double_of_u64 v) (Fin 1024)) (Fin 1024),
                  total_gb = fdiv (fdiv (double_of_u64 v) (Fin 1024)) (Fin 1024),
                  percent_used = Fin 100\<rparr>"
  using assms(4) ratio_full[OF assms(4)]
  by (simp add: get_memory_usage_linux_def meminfo_loop_no_available[OF assms(1,2,3,5)] Let_def)


theorem get_memory_usage_linux_no_available_witness:
  "buffers meminfo_no_available
     = [] @ ''MemTotal:        2048000 kB\<newline>'' # [''MemFree:          512000 kB\<newline>'']
   \<and> fst (sscanf ''MemTotal:        2048000 kB\<newline>'' ''MemAvailable: %lu kB'') \<noteq> 1
   \<and> fst (sscanf ''MemFree:          512000 kB\<newline>'' ''MemAvailable: %lu kB'') \<noteq> 1
   \<and> sscanf ''MemTotal:        2048000 kB\<newline>'' ''MemTotal: %lu kB'' = (1, [2048000])
   \<and> (2048000 :: 64 word) \<noteq> 0
   \<and> fst (sscanf ''MemFree:          512000 kB\<newline>'' ''MemTotal: %lu kB'') \<noteq> 1
   \<and> get_memory_usage_linux (Some meminfo_no_available)
       = Inr \<lparr>used_gb = fdiv (fdiv (double_of_u64 2048000) (Fin 1024)) (Fin 1024),
              total_gb = fdiv (fdiv (double_of_u64 2048000) (Fin 1024)) (Fin 1024),
              percent_used = Fin 100\<rparr>"
proof -
  have h1: "\<forall>l \<in> set (buffers meminfo_no_available). fst (sscanf l ''MemAvailable: %lu kB'') \<noteq> 1"
    by (simp add: buffers_no_available scan_eval)
  have h3: "sscanf ''MemTotal:        2048000 kB\<newline>'' ''MemTotal: %lu kB'' = (1, [2048000])"
    by (simp add: scan_eval)
  have h4: "(2048000 :: 64 word) \<noteq> 0" by simp
  have h5: "\<forall>l \<in> set [''MemFree:          512000 kB\<newline>'']. fst (sscanf l ''MemTotal: %lu kB'') \<noteq> 1"
    by (simp add: scan_eval)
  have a1: "fst (sscanf ''MemTotal:        2048000 kB\<newline>'' ''MemAvailable: %lu kB'') \<noteq> 1"
    and a2: "fst (sscanf ''MemFree:          512000 kB\<newline>'' ''MemAvailable: %lu kB'') \<noteq> 1"
    using h1 by (simp_all add: buffers_no_available)
  have a3: "fst (sscanf ''MemFree:          512000 kB\<newline>'' ''MemTotal: %lu kB'') \<noteq> 1"
    using h5 by simp
  from get_memory_usage_linux_no_available[OF h1 buffers_no_available h3 h4 h5]
    buffers_no_available a1 a2 h3 h4 a3
  show ?thesis by blast
qed

text \<open>
  C10 as stated fails on a table with two \<open>MemTotal\<close> lines: the last one wins, and when
  it carries 0 the call fails although an earlier line carries 5 and no line is a
  \<open>MemAvailable\<close> line.
\<close>

theorem get_memory_usage_linux_two_totals_counterexample:
  "buffers meminfo_two_totals
     = [''MemTotal:              5 kB\<newline>'', ''MemTotal:              0 kB\<newline>'']
   \<and> sscanf ''MemTotal:              5 kB\<newline>'' ''MemTotal: %lu kB'' = (1, [5])
   \<and> fst (sscanf ''MemTotal:              5 kB\<newline>'' ''MemAvailable: %lu kB'') \<noteq> 1
   \<and> fst (sscanf ''MemTotal:              0 kB\<newline>'' ''MemAvailable: %lu kB'') \<noteq> 1
   \<and> get_memory_usage_linux (Some meminfo_two_totals) = Inl MemTotalMissing"
proof -
  have b: "buffers meminfo_two_totals
     = [''MemTotal:              5 kB\<newline>'', ''MemTotal:              0 kB\<newline>'']"
    unfolding meminfo_two_totals_def by code_simp
  have t: "sscanf ''MemTotal:              5 kB\<newline>'' ''MemTotal: %lu kB'' = (1, [5])"
    by (simp add: scan_eval)
  have a1: "fst (sscanf ''MemTotal:              5 kB\<newline>'' ''MemAvailable: %lu kB'') \<noteq> 1"
    by (simp add: scan_eval)
  have a2: "fst (sscanf ''MemTotal:              0 kB\<newline>'' ''MemAvailable: %lu kB'') \<noteq> 1"
    by (simp add: scan_eval)
  have loop: "meminfo_loop meminfo_two_totals 0 0 = (0, 0)"
    by (simp add: meminfo_loop_buffers b meminfo_step_pair scan_eval)
  have "get_memory_usage_linux (Some meminfo_two_totals) = Inl MemTotalMissing"
    by (simp add: get_memory_usage_linux_def loop)
  with b t a1 a2 show ?thesis by simp
qed

section \<open>Properties of the interface enumerator\<close>

lemma print_entries_filter:
  "print_entries inet_ntop ifs
     = map (record_of inet_ntop) (filter (\<lambda>ifa. eligible ifa \<and> convertible inet_ntop ifa) ifs)"
  by (induction ifs)
     (auto simp add: eligible_def convertible_def record_of_def split: option.splits)

lemma print_entries_append:
  "print_entries inet_ntop (xs @ ys) = print_entries inet_ntop xs @ print_entries inet_ntop ys"
  by (simp add: print_entries_filter)

lemma inet_ntop4_examples:
  "inet_ntop4 0xC0A8010A = Some ''192.168.1.10''"
  "inet_ntop4 0xFFFFFF00 = Some ''255.255.255.0''"
  "inet_ntop4 0xAC110001 = Some ''172.17.0.1''"
  "inet_ntop4 0x7F000001 = Some ''127.0.0.1''"
  by (simp_all add: inet_ntop4_def octet_str_def drop_bit_eq_div)

text \<open>
  C9: after the header, \<open>print_network_interfaces\<close> prints one record for each entry that
  has an address of family IPv4, has no loopback flag and whose address and netmask both
  convert, in the order of the list, and nothing else. Of a loopback IPv4 entry, a
  non-loopback IPv4 entry and a non-loopback IPv6 entry only the second is printed. An
  entry whose address or netmask does not convert is skipped and the entries around it are
  printed as without it.
\<close>

theorem print_network_interfaces_filter:
  "print_network_interfaces inet_ntop (Some ifs)
     = (NetHeader # map (record_of inet_ntop)
                      (filter (\<lambda>ifa. eligible ifa \<and> convertible inet_ntop ifa) ifs), [])
   \<and> (ifa_addr lo = Some a \<and> sa_family a = AF_INET \<and> ifa_flags lo AND IFF_LOOPBACK \<noteq> 0
        \<and> eligible eth \<and> convertible inet_ntop eth
        \<and> ifa_addr v6 = Some a6 \<and> sa_family a6 \<noteq> AF_INET \<and> ifa_flags v6 AND IFF_LOOPBACK = 0
        \<longrightarrow> print_network_interfaces inet_ntop (Some [lo, eth, v6])
              = ([NetHeader, record_of inet_ntop eth], []))
   \<and> (\<not> convertible inet_ntop bad
        \<longrightarrow> print_entries inet_ntop (xs @ bad # ys)
              = print_entries inet_ntop xs @ print_entries inet_ntop ys)"
proof -
  have a: "print_network_interfaces inet_ntop (Some ifs)
     = (NetHeader # map (record_of inet_ntop)
                      (filter (\<lambda>ifa. eligible ifa \<and> convertible inet_ntop ifa) ifs), [])" for ifs
    by (simp add: print_network_interfaces_def print_entries_filter)
  have b: "print_network_interfaces inet_ntop (Some [lo, eth, v6])
              = ([NetHeader, record_of inet_ntop eth], [])"
    if "ifa_addr lo = Some a" "sa_family a = AF_INET" "ifa_flags lo AND IFF_LOOPBACK \<noteq> 0"
       "eligible eth" "convertible inet_ntop eth"
       "ifa_addr v6 = Some a6" "sa_family a6 \<noteq> AF_INET" "ifa_flags v6 AND IFF_LOOPBACK = 0"
    using that by (simp add: a eligible_def)
  have c: "print_entries inet_ntop (xs @ bad # ys)
              = print_entries inet_ntop xs @ print_entries inet_ntop ys"
    if "\<not> convertible inet_ntop bad"
    using that by (simp add: print_entries_filter)
  from a[of ifs] b c show ?thesis by blast
qed

theorem print_network_interfaces_filter_witness:
  "ifa_addr if_lo = Some \<lparr>sa_family = 2, sin_addr = 0x7F000001\<rparr>
   \<and> sa_family \<lparr>sa_family = 2, sin_addr = 0x7F000001 :: 32 word\<rparr> = AF_INET
   \<and> ifa_flags if_lo AND IFF_LOOPBACK \<noteq> 0
   \<and> eligible if_eth0 \<and> convertible (ntop_rejecting 0xFFFF0000) if_eth0
   \<and> ifa_addr if_eth0_v6 = Some \<lparr>sa_family = 10, sin_addr = 0\<rparr>
   \<and> sa_family \<lparr>sa_family = 10, sin_addr = 0 :: 32 word\<rparr> \<noteq> AF_INET
   \<and> ifa_flags if_eth0_v6 AND IFF_LOOPBACK = 0
   \<and> print_network_interfaces (ntop_rejecting 0xFFFF0000) (Some [if_lo, if_eth0, if_eth0_v6])
       = ([NetHeader, NetInterface ''eth0'' ''192.168.1.10'' ''255.255.255.0''], [])
   \<and> \<not> convertible (ntop_rejecting 0xFFFF0000) if_docker0
   \<and> print_entries (ntop_rejecting 0xFFFF0000) ([if_lo] @ if_docker0 # [if_eth0])
       = [NetInterface ''eth0'' ''192.168.1.10'' ''255.255.255.0'']"
proof -
  have h1: "ifa_addr if_lo = Some \<lparr>sa_family = 2, sin_addr = 0x7F000001\<rparr>"
    by (simp add: if_lo_def)
  have h2: "sa_family \<lparr>sa_family = 2, sin_addr = 0x7F000001 :: 32 word\<rparr> = AF_INET"
    by (simp add: AF_INET_def)
  have h3: "ifa_flags if_lo AND IFF_LOOPBACK \<noteq> 0"
    by (simp add: if_lo_def IFF_LOOPBACK_def)
  have h4: "eligible if_eth0"
    by (simp add: eligible_def if_eth0_def AF_INET_def IFF_LOOPBACK_def)
  have h5: "convertible (ntop_rejecting 0xFFFF0000) if_eth0"
    by (simp add: convertible_def if_eth0_def ntop_rejecting_def inet_ntop4_def)
  have h6: "ifa_addr if_eth0_v6 = Some \<lparr>sa_family = 10, sin_addr = 0\<rparr>"
    by (simp add: if_eth0_v6_def)
  have h7: "sa_family \<lparr>sa_family = 10, sin_addr = 0 :: 32 word\<rparr> \<noteq> AF_INET"
    by (simp add: AF_INET_def)
  have h8: "ifa_flags if_eth0_v6 AND IFF_LOOPBACK = 0"
    by (simp add: if_eth0_v6_def IFF_LOOPBACK_def)
  have h9: "\<not> convertible (ntop_rejecting 0xFFFF0000) if_docker0"
    by (simp add: convertible_def if_docker0_def ntop_rejecting_def)
  have r: "record_of (ntop_rejecting 0xFFFF0000) if_eth0
             = NetInterface ''eth0'' ''192.168.1.10'' ''255.255.255.0''"
    by (simp add: record_of_def if_eth0_def ntop_rejecting_def inet_ntop4_examples)
  have e: "print_entries (ntop_rejecting 0xFFFF0000) [if_lo] = []"
    "print_entries (ntop_rejecting 0xFFFF0000) [if_eth0]
       = [NetInterface ''eth0'' ''192.168.1.10'' ''255.255.255.0'']"
    using h3 h4 h5 r by (simp_all add: print_entries_filter eligible_def)
  from print_network_interfaces_filter[of "ntop_rejecting 0xFFFF0000" "[]" if_lo
      "\<lparr>sa_family = 2, sin_addr = 0x7F000001\<rparr>" if_eth0 if_eth0_v6
      "\<lparr>sa_family = 10, sin_addr = 0\<rparr>" if_docker0 "[if_lo]" "[if_eth0]"]
    h1 h2 h3 h4 h5 h6 h7 h8 h9 r e
  show ?thesis by simp
qed

section \<open>Properties of the report\<close>

lemma get_cpu_times_linux_sample:
  "get_cpu_times_linux (Some stat_sample)
     = Inr \<lparr>user = 4705, nice = 150, system = 1120, idle = 16250, intr = 0\<rparr>"
proof -
  have "fgets 256 stat_sample
          = Some (''cpu  4705 150 1120 16250 520 0 17\<newline>'', ''cpu0 1393 0 225 4271\<newline>'')"
    unfolding stat_sample_def by code_simp
  moreover have "sscanf ''cpu  4705 150 1120 16250 520 0 17\<newline>'' ''cpu  %llu %llu %llu %llu''
                   = (4, [4705, 150, 1120, 16250])"
    by (simp add: scan_eval)
  ultimately show ?thesis by (simp add: get_cpu_times_linux_def)
qed

lemma get_cpu_times_linux_later:
  "get_cpu_times_linux (Some ''cpu  4805 150 1130 16440 520 0 17\<newline>'')
     = Inr \<lparr>user = 4805, nice = 150, system = 1130, idle = 16440, intr = 0\<rparr>"
proof -
  have "fgets 256 ''cpu  4805 150 1130 16440 520 0 17\<newline>''
          = Some (''cpu  4805 150 1130 16440 520 0 17\<newline>'', [])"
    by code_simp
  moreover have "sscanf ''cpu  4805 150 1130 16440 520 0 17\<newline>'' ''cpu  %llu %llu %llu %llu''
                   = (4, [4805, 150, 1130, 16440])"
    by (simp add: scan_eval)
  ultimately show ?thesis by (simp add: get_cpu_times_linux_def)
qed

lemma main_cases:
  "get_cpu_times_first h = Inl e \<Longrightarrow>
     main h = \<lparr>exit_code = EXIT_FAILURE, stdout = [Title, Rule],
               stderr = [Diag e, FailedInitialCpuTimes]\<rparr>"
  "get_cpu_times_first h = Inr prev \<Longrightarrow> get_cpu_times_second h = Inl e \<Longrightarrow>
     main h = \<lparr>exit_code = EXIT_FAILURE, stdout = [Title, Rule],
               stderr = [Diag e, FailedCpuTimes]\<rparr>"
  "get_cpu_times_first h = Inr prev \<Longrightarrow> get_cpu_times_second h = Inr cur \<Longrightarrow>
     exit_code (main h) = EXIT_SUCCESS
     \<and> stdout (main h) =
         [Title, Rule, CpuUsage (calc_cpu_usage (os h) prev cur)]
         @ (case get_memory_usage h of
              Inr u \<Rightarrow> [MemoryUsage (used_gb u) (total_gb u) (percent_used u)]
            | Inl e \<Rightarrow> [MemoryError])
         @ (case get_disk_usage (root_fs h) of
              Inr u \<Rightarrow> [DiskUsage (used_gb u) (total_gb u) (percent_used u)]
            | Inl e \<Rightarrow> [DiskError])
         @ fst (print_network_interfaces inet_ntop4 (interfaces h))
     \<and> stderr (main h) =
         (case get_memory_usage h of Inr u \<Rightarrow> [] | Inl e \<Rightarrow> [Diag e])
         @ (case get_disk_usage (root_fs h) of Inr u \<Rightarrow> [] | Inl e \<Rightarrow> [Diag e])
         @ snd (print_network_interfaces inet_ntop4 (interfaces h))"
  by (simp_all add: main_def Let_def split: sum.splits)

text \<open>
  C2, as the code has it: \<open>main\<close> exits with 0 exactly when both CPU samples are obtained
  and with a non-zero code exactly when the first or the second one fails. A failure of
  the memory, disk or network collector leaves the exit code at 0: the first two print
  their error line in the report, the third prints the \<open>getifaddrs\<close> diagnostic to standard
  error and no interface section.
\<close>

theorem main_exit_code:
  "(exit_code (main h) = 0
      \<longleftrightarrow> (\<exists>prev cur. get_cpu_times_first h = Inr prev \<and> get_cpu_times_second h = Inr cur))
   \<and> (exit_code (main h) \<noteq> 0
      \<longleftrightarrow> (\<exists>e. get_cpu_times_first h = Inl e) \<or> (\<exists>e. get_cpu_times_second h = Inl e))
   \<and> (exit_code (main h) = 0 \<longrightarrow>
        ((\<exists>e. get_memory_usage h = Inl e) \<longrightarrow> MemoryError \<in> set (stdout (main h)))
        \<and> ((\<exists>e. get_disk_usage (root_fs h) = Inl e) \<longrightarrow> DiskError \<in> set (stdout (main h)))
        \<and> (interfaces h = None \<longrightarrow>
             Diag GetifaddrsFailed \<in> set (stderr (main h)) \<and> NetHeader \<notin> set (stdout (main h))))"
proof (cases "get_cpu_times_first h")
  case (Inl e)
  from main_cases(1)[OF Inl] show ?thesis by (auto simp add: Inl EXIT_FAILURE_def)
next
  case (Inr prev)
  note first = Inr
  show ?thesis
  proof (cases "get_cpu_times_second h")
    case (Inl e)
    from main_cases(2)[OF first Inl] show ?thesis by (auto simp add: first Inl EXIT_FAILURE_def)
  next
    case (Inr cur)
    from main_cases(3)[OF first Inr] show ?thesis
      by (auto simp add: first Inr EXIT_SUCCESS_def print_network_interfaces_def
          split: sum.splits)
  qed
qed

theorem main_exit_code_witness:
  "exit_code (main host_partial) = 0
   \<and> (\<exists>e. get_memory_usage host_partial = Inl e) \<and> MemoryError \<in> set (stdout (main host_partial))
   \<and> (\<exists>e. get_disk_usage (root_fs host_partial) = Inl e)
   \<and> DiskError \<in> set (stdout (main host_partial))
   \<and> interfaces host_partial = None
   \<and> Diag GetifaddrsFailed \<in> set (stderr (main host_partial))
   \<and> NetHeader \<notin> set (stdout (main host_partial))"
proof -
  have f: "get_cpu_times_first host_partial
             = Inr \<lparr>user = 4705, nice = 150, system = 1120, idle = 16250, intr = 0\<rparr>"
    by (simp add: get_cpu_times_first_def host_partial_def get_cpu_times_linux_sample)
  have s: "get_cpu_times_second host_partial
             = Inr \<lparr>user = 4805, nice = 150, system = 1130, idle = 16440, intr = 0\<rparr>"
    by (simp add: get_cpu_times_second_def host_partial_def get_cpu_times_linux_later)
  have m: "get_memory_usage host_partial = Inl FopenFailed"
    by (simp add: get_memory_usage_def host_partial_def get_memory_usage_linux_def)
  have d: "get_disk_usage (root_fs host_partial) = Inl StatvfsFailed"
    by (simp add: host_partial_def get_disk_usage_def)
  have n: "interfaces host_partial = None" by (simp add: host_partial_def)
  from main_exit_code[of host_partial] f s m d n show ?thesis by simp
qed

text \<open>
  C2 as stated fails: when the first CPU sample is obtained and the second is not, the exit
  code is \<open>EXIT_FAILURE\<close>.
\<close>

theorem main_exit_code_counterexample:
  "get_cpu_times_first host_second_fails
     = Inr \<lparr>user = 4705, nice = 150, system = 1120, idle = 16250, intr = 0\<rparr>
   \<and> exit_code (main host_second_fails) = 1"
proof -
  have f: "get_cpu_times_first host_second_fails
             = Inr \<lparr>user = 4705, nice = 150, system = 1120, idle = 16250, intr = 0\<rparr>"
    by (simp add: get_cpu_times_first_def host_second_fails_def get_cpu_times_linux_sample)
  have s: "get_cpu_times_second host_second_fails = Inl FopenFailed"
    by (simp add: get_cpu_times_second_def host_second_fails_def get_cpu_times_linux_def)
  from main_cases(2)[OF f s] f show ?thesis by (simp add: EXIT_FAILURE_def)
qed

end
